theory Spec2Isabelle
  imports Main "HOL-Library.AList"
begin

section \<open>The multilevel cache of CachingSystem.cpp\<close>

text \<open>
  The program is one C++ file: two eviction policies behind the interface
  \<^verbatim>\<open>EvictionPolicy\<close>, a \<^verbatim>\<open>CacheLevel\<close> that owns one policy, and a
  \<^verbatim>\<open>MultilevelCacheSystem\<close> that owns a vector of levels. Every method
  takes its object's mutex for the whole call, so a call is one atomic step
  on the object's state; the model passes that state explicitly.

  Where C++ gives a call no defined behaviour the model returns an error value
  instead of a state.
\<close>

datatype error =
    EmptyListFront       \<comment> \<open>\<^verbatim>\<open>front()\<close> of an empty \<^verbatim>\<open>std::list\<close>\<close>
  | InvalidIterator      \<comment> \<open>\<^verbatim>\<open>erase\<close> through an iterator that designates no node\<close>
  | NullPolicyDeref      \<comment> \<open>\<^verbatim>\<open>evictionPolicy->\<close> on an empty \<^verbatim>\<open>unique_ptr\<close>\<close>
  | SignedOverflow       \<comment> \<open>\<^verbatim>\<open>++\<close> on an \<^verbatim>\<open>int\<close> that holds \<^verbatim>\<open>INT_MAX\<close>\<close>
  | IndexOutOfRange      \<comment> \<open>\<^verbatim>\<open>operator[]\<close> of a vector beyond its size\<close>

text \<open>
  A \<^verbatim>\<open>std::unordered_map<string, V>\<close> is an association list with one entry
  per key, in the map's iteration order. \<^verbatim>\<open>m[k] = v\<close> is \<^const>\<open>AList.update\<close>
  (overwrite in place, or a new entry), \<^verbatim>\<open>m.erase(k)\<close> is \<^const>\<open>AList.delete\<close>,
  \<^verbatim>\<open>m.find(k)\<close> is \<^const>\<open>map_of\<close> and \<^verbatim>\<open>m.size()\<close> is the length of the
  list. The standard leaves the iteration order open: the invariants below say
  nothing about the order of the entries, so the theorems hold for each order.
\<close>

definition INT_MAX :: int where
  "INT_MAX = 2147483647"

definition size_t_of_int :: "int \<Rightarrow> nat" where
  \<comment> \<open>the conversion of an \<^verbatim>\<open>int\<close> operand compared with a \<^verbatim>\<open>size_t\<close> (64 bit)\<close>
  "size_t_of_int n = nat (n mod 2 ^ 64)"

subsection \<open>LRUEvictionPolicy\<close>

text \<open>
  \<^verbatim>\<open>accessOrder\<close> is a \<^verbatim>\<open>std::list<string>\<close>: a sequence of nodes, front
  first, each with its address and the key it holds. \<^verbatim>\<open>cacheMap\<close> stores for
  a key an iterator into that list, which is the address of a node.
\<close>

record LRUEvictionPolicy =
  accessOrder :: "(nat \<times> string) list"
  cacheMap :: "(string \<times> nat) list"

definition LRU_new :: LRUEvictionPolicy where
  "LRU_new = \<lparr>accessOrder = [], cacheMap = []\<rparr>"

definition list_erase :: "nat \<Rightarrow> (nat \<times> string) list \<Rightarrow> error + (nat \<times> string) list" where
  \<comment> \<open>\<^verbatim>\<open>accessOrder.erase(it)\<close>: unlink the node the iterator designates\<close>
  "list_erase it nodes =
     (if it \<in> fst ` set nodes then Inr (filter (\<lambda>n. fst n \<noteq> it) nodes)
      else Inl InvalidIterator)"

definition new_node :: "(nat \<times> string) list \<Rightarrow> nat" where
  \<comment> \<open>the address of a node allocated by \<^verbatim>\<open>push_back\<close>: none of the live ones\<close>
  "new_node nodes = Suc (foldr max (map fst nodes) 0)"

definition LRU_access :: "string \<Rightarrow> LRUEvictionPolicy \<Rightarrow> error + LRUEvictionPolicy" where
  "LRU_access key p =
     (case (case map_of (cacheMap p) key of
              None \<Rightarrow> Inr (accessOrder p)
            | Some it \<Rightarrow> list_erase it (accessOrder p)) of
        Inl e \<Rightarrow> Inl e
      | Inr nodes \<Rightarrow>
          Inr \<lparr>accessOrder = nodes @ [(new_node nodes, key)],
               cacheMap = AList.update key (new_node nodes) (cacheMap p)\<rparr>)"

definition LRU_evict :: "LRUEvictionPolicy \<Rightarrow> error + (string \<times> LRUEvictionPolicy)" where
  "LRU_evict p =
     (case accessOrder p of
        [] \<Rightarrow> Inl EmptyListFront
      | n # nodes \<Rightarrow>
          Inr (snd n, \<lparr>accessOrder = nodes, cacheMap = AList.delete (snd n) (cacheMap p)\<rparr>))"

text \<open>A sequence of \<^verbatim>\<open>access\<close> calls, stopping where one has no defined result.\<close>

fun LRU_access_all :: "string list \<Rightarrow> LRUEvictionPolicy \<Rightarrow> error + LRUEvictionPolicy" where
  "LRU_access_all [] p = Inr p"
| "LRU_access_all (k # ks) p =
     (case LRU_access k p of Inl e \<Rightarrow> Inl e | Inr p' \<Rightarrow> LRU_access_all ks p')"

definition LRU_order :: "LRUEvictionPolicy \<Rightarrow> string list" where
  \<comment> \<open>the keys of \<^verbatim>\<open>accessOrder\<close>, least recent end first\<close>
  "LRU_order p = map snd (accessOrder p)"

definition LRU_tracked :: "LRUEvictionPolicy \<Rightarrow> string set" where
  "LRU_tracked p = set (map fst (cacheMap p))"

definition LRU_inv :: "LRUEvictionPolicy \<Rightarrow> bool" where
  \<comment> \<open>node addresses and map keys are unique, and the map holds for each key
      the address of the node with that key\<close>
  "LRU_inv p \<longleftrightarrow>
     distinct (map fst (accessOrder p)) \<and>
     distinct (map fst (cacheMap p)) \<and>
     set (cacheMap p) = set (map prod.swap (accessOrder p))"

text \<open>
  The position of the last touch of a key in a history of touches (oldest
  first), and the order it induces on keys.
\<close>

primrec last_touch :: "string list \<Rightarrow> string \<Rightarrow> nat option" where
  "last_touch [] k = None"
| "last_touch (x # xs) k =
     (case last_touch xs k of
        Some n \<Rightarrow> Some (Suc n)
      | None \<Rightarrow> if x = k then Some 0 else None)"

definition touched_before :: "string list \<Rightarrow> string \<Rightarrow> string \<Rightarrow> bool" where
  "touched_before h a b \<longleftrightarrow>
     (case (last_touch h a, last_touch h b) of
        (Some i, Some j) \<Rightarrow> i < j
      | _ \<Rightarrow> False)"

subsection \<open>LFUEvictionPolicy\<close>

record LFUEvictionPolicy =
  frequencyMap :: "(string \<times> int) list"
  keyOrder :: "(string \<times> int) list"
  currentTime :: int

definition LFU_new :: LFUEvictionPolicy where
  "LFU_new = \<lparr>frequencyMap = [], keyOrder = [], currentTime = 0\<rparr>"

definition int_at :: "(string \<times> int) list \<Rightarrow> string \<Rightarrow> int" where
  \<comment> \<open>the value \<^verbatim>\<open>m[key]\<close> reads: a missing key is value-initialised to 0\<close>
  "int_at m key = (case map_of m key of None \<Rightarrow> 0 | Some c \<Rightarrow> c)"

definition LFU_access :: "string \<Rightarrow> LFUEvictionPolicy \<Rightarrow> error + LFUEvictionPolicy" where
  "LFU_access key p =
     (if int_at (frequencyMap p) key = INT_MAX then Inl SignedOverflow
      else if currentTime p = INT_MAX then Inl SignedOverflow
      else Inr \<lparr>frequencyMap = AList.update key (int_at (frequencyMap p) key + 1) (frequencyMap p),
                keyOrder = AList.update key (currentTime p) (keyOrder p),
                currentTime = currentTime p + 1\<rparr>)"

text \<open>
  The loop of \<^verbatim>\<open>evict\<close> over the entries of \<^verbatim>\<open>frequencyMap\<close>. Its state is
  \<^verbatim>\<open>keyOrder\<close> (which \<^verbatim>\<open>keyOrder[key]\<close> extends when the key is missing),
  \<^verbatim>\<open>lfuKey\<close>, \<^verbatim>\<open>minFreq\<close> and \<^verbatim>\<open>minOrder\<close>.
\<close>

fun LFU_scan ::
  "(string \<times> int) list \<Rightarrow> (string \<times> int) list \<times> string \<times> int \<times> int \<Rightarrow>
   (string \<times> int) list \<times> string \<times> int \<times> int" where
  "LFU_scan [] st = st"
| "LFU_scan ((key, freq) # rest) (ko, lfuKey, minFreq, minOrder) =
     (let order = int_at ko key;
          ko' = AList.update key order ko
      in if freq < minFreq \<or> (freq = minFreq \<and> order < minOrder)
         then LFU_scan rest (ko', key, freq, order)
         else LFU_scan rest (ko', lfuKey, minFreq, minOrder))"

definition LFU_evict :: "LFUEvictionPolicy \<Rightarrow> string \<times> LFUEvictionPolicy" where
  "LFU_evict p =
     (case LFU_scan (frequencyMap p) (keyOrder p, [], INT_MAX, INT_MAX) of
        (ko, lfuKey, minFreq, minOrder) \<Rightarrow>
          (lfuKey, \<lparr>frequencyMap = AList.delete lfuKey (frequencyMap p),
                    keyOrder = AList.delete lfuKey ko,
                    currentTime = currentTime p\<rparr>))"

definition LFU_tracked :: "LFUEvictionPolicy \<Rightarrow> string set" where
  "LFU_tracked p = set (map fst (frequencyMap p))"

definition LFU_inv :: "LFUEvictionPolicy \<Rightarrow> bool" where
  \<comment> \<open>one entry per key, the same keys in both maps, every value an \<^verbatim>\<open>int\<close>,
      every sequence number handed out by the counter\<close>
  "LFU_inv p \<longleftrightarrow>
     distinct (map fst (frequencyMap p)) \<and>
     distinct (map fst (keyOrder p)) \<and>
     set (map fst (frequencyMap p)) = set (map fst (keyOrder p)) \<and>
     list_all (\<lambda>e. snd e \<le> INT_MAX) (frequencyMap p) \<and>
     list_all (\<lambda>e. snd e < currentTime p) (keyOrder p) \<and>
     currentTime p \<le> INT_MAX"

definition LFU_le :: "LFUEvictionPolicy \<Rightarrow> string \<Rightarrow> string \<Rightarrow> bool" where
  \<comment> \<open>\<open>a\<close> has a smaller count than \<open>b\<close>, or the same count and a sequence
      number that is not larger\<close>
  "LFU_le p a b \<longleftrightarrow>
     int_at (frequencyMap p) a < int_at (frequencyMap p) b \<or>
     (int_at (frequencyMap p) a = int_at (frequencyMap p) b \<and>
      int_at (keyOrder p) a \<le> int_at (keyOrder p) b)"

subsection \<open>The interface EvictionPolicy\<close>

datatype EvictionPolicy = LRU LRUEvictionPolicy | LFU LFUEvictionPolicy

fun access :: "string \<Rightarrow> EvictionPolicy \<Rightarrow> error + EvictionPolicy" where
  "access key (LRU p) = (case LRU_access key p of Inl e \<Rightarrow> Inl e | Inr p' \<Rightarrow> Inr (LRU p'))"
| "access key (LFU p) = (case LFU_access key p of Inl e \<Rightarrow> Inl e | Inr p' \<Rightarrow> Inr (LFU p'))"

fun evict :: "EvictionPolicy \<Rightarrow> error + (string \<times> EvictionPolicy)" where
  "evict (LRU p) = (case LRU_evict p of Inl e \<Rightarrow> Inl e | Inr (k, p') \<Rightarrow> Inr (k, LRU p'))"
| "evict (LFU p) = (case LFU_evict p of (k, p') \<Rightarrow> Inr (k, LFU p'))"

fun tracked :: "EvictionPolicy \<Rightarrow> string set" where
  "tracked (LRU p) = LRU_tracked p"
| "tracked (LFU p) = LFU_tracked p"

fun policy_inv :: "EvictionPolicy \<Rightarrow> bool" where
  "policy_inv (LRU p) = LRU_inv p"
| "policy_inv (LFU p) = LFU_inv p"

subsection \<open>CacheLevel\<close>

text \<open>
  The field \<^verbatim>\<open>size\<close> is the capacity given to the constructor. An empty
  \<^verbatim>\<open>unique_ptr\<close> is \<^const>\<open>None\<close>.
\<close>

record CacheLevel =
  size_lvl :: int
  data :: "(string \<times> string) list"
  evictionPolicy :: "EvictionPolicy option"

definition CacheLevel_new :: "int \<Rightarrow> EvictionPolicy option \<Rightarrow> CacheLevel" where
  "CacheLevel_new n policy = \<lparr>size_lvl = n, data = [], evictionPolicy = policy\<rparr>"

definition policy_access :: "string \<Rightarrow> CacheLevel \<Rightarrow> error + CacheLevel" where
  \<comment> \<open>\<^verbatim>\<open>evictionPolicy->access(key)\<close>\<close>
  "policy_access key lvl =
     (case evictionPolicy lvl of
        None \<Rightarrow> Inl NullPolicyDeref
      | Some p \<Rightarrow>
          (case access key p of
             Inl e \<Rightarrow> Inl e
           | Inr p' \<Rightarrow> Inr (lvl\<lparr>evictionPolicy := Some p'\<rparr>)))"

definition policy_evict :: "CacheLevel \<Rightarrow> error + (string \<times> CacheLevel)" where
  \<comment> \<open>\<^verbatim>\<open>evictionPolicy->evict()\<close>\<close>
  "policy_evict lvl =
     (case evictionPolicy lvl of
        None \<Rightarrow> Inl NullPolicyDeref
      | Some p \<Rightarrow>
          (case evict p of
             Inl e \<Rightarrow> Inl e
           | Inr (k, p') \<Rightarrow> Inr (k, lvl\<lparr>evictionPolicy := Some p'\<rparr>)))"

definition CacheLevel_get :: "string \<Rightarrow> CacheLevel \<Rightarrow> error + (string \<times> CacheLevel)" where
  "CacheLevel_get key lvl =
     (case map_of (data lvl) key of
        None \<Rightarrow> Inr ([], lvl)
      | Some val \<Rightarrow>
          (case policy_access key lvl of
             Inl e \<Rightarrow> Inl e
           | Inr lvl' \<Rightarrow> Inr (val, lvl')))"

definition at_capacity :: "CacheLevel \<Rightarrow> bool" where
  \<comment> \<open>\<^verbatim>\<open>data.size() >= size\<close>, an unsigned comparison\<close>
  "at_capacity lvl \<longleftrightarrow> size_t_of_int (size_lvl lvl) \<le> length (data lvl)"

definition CacheLevel_put :: "string \<Rightarrow> string \<Rightarrow> CacheLevel \<Rightarrow> error + CacheLevel" where
  "CacheLevel_put key val lvl =
     (case (if at_capacity lvl
            then (case policy_evict lvl of
                    Inl e \<Rightarrow> Inl e
                  | Inr (evicted, lvl') \<Rightarrow>
                      Inr (lvl'\<lparr>data := AList.delete evicted (data lvl')\<rparr>))
            else Inr lvl) of
        Inl e \<Rightarrow> Inl e
      | Inr lvl1 \<Rightarrow> policy_access key (lvl1\<lparr>data := AList.update key val (data lvl1)\<rparr>))"

definition CacheLevel_contains :: "string \<Rightarrow> CacheLevel \<Rightarrow> bool" where
  "CacheLevel_contains key lvl \<longleftrightarrow> map_of (data lvl) key \<noteq> None"

definition CacheLevel_update :: "string \<Rightarrow> string \<Rightarrow> CacheLevel \<Rightarrow> CacheLevel" where
  "CacheLevel_update key val lvl = lvl\<lparr>data := AList.update key val (data lvl)\<rparr>"

definition level_keys :: "CacheLevel \<Rightarrow> string set" where
  "level_keys lvl = set (map fst (data lvl))"

definition level_tracked :: "CacheLevel \<Rightarrow> string set" where
  \<comment> \<open>the keys the level's policy tracks; none without a policy\<close>
  "level_tracked lvl = (case evictionPolicy lvl of None \<Rightarrow> {} | Some p \<Rightarrow> tracked p)"

definition in_sync :: "CacheLevel \<Rightarrow> bool" where
  "in_sync lvl \<longleftrightarrow> level_tracked lvl = level_keys lvl"

definition level_inv :: "CacheLevel \<Rightarrow> bool" where
  \<comment> \<open>one entry per key in the mapping, a well-formed policy state, and the
      policy tracks the keys of the mapping\<close>
  "level_inv lvl \<longleftrightarrow>
     distinct (map fst (data lvl)) \<and>
     (case evictionPolicy lvl of None \<Rightarrow> True | Some p \<Rightarrow> policy_inv p) \<and>
     in_sync lvl"

text \<open>The operations of a level as data, and a run of them from a given level.\<close>

datatype level_op = Get string | Put string string | Update string string

fun apply_op :: "level_op \<Rightarrow> CacheLevel \<Rightarrow> error + CacheLevel" where
  "apply_op (Get k) lvl = (case CacheLevel_get k lvl of Inl e \<Rightarrow> Inl e | Inr (v, lvl') \<Rightarrow> Inr lvl')"
| "apply_op (Put k v) lvl = CacheLevel_put k v lvl"
| "apply_op (Update k v) lvl = Inr (CacheLevel_update k v lvl)"

fun run_ops :: "level_op list \<Rightarrow> CacheLevel \<Rightarrow> error + CacheLevel" where
  "run_ops [] lvl = Inr lvl"
| "run_ops (x # xs) lvl = (case apply_op x lvl of Inl e \<Rightarrow> Inl e | Inr lvl' \<Rightarrow> run_ops xs lvl')"

fun updates_present :: "level_op list \<Rightarrow> CacheLevel \<Rightarrow> bool" where
  \<comment> \<open>every \<^verbatim>\<open>update\<close> of the run writes a key the mapping holds at that moment\<close>
  "updates_present [] lvl = True"
| "updates_present (x # xs) lvl =
     ((case x of Update k v \<Rightarrow> CacheLevel_contains k lvl | _ \<Rightarrow> True) \<and>
      (case apply_op x lvl of Inl e \<Rightarrow> True | Inr lvl' \<Rightarrow> updates_present xs lvl'))"

subsection \<open>MultilevelCacheSystem\<close>

record MultilevelCacheSystem =
  cacheLevels :: "CacheLevel list"

definition MCS_new :: MultilevelCacheSystem where
  "MCS_new = \<lparr>cacheLevels = []\<rparr>"

definition addCacheLevel :: "int \<Rightarrow> string \<Rightarrow> MultilevelCacheSystem \<Rightarrow> MultilevelCacheSystem" where
  "addCacheLevel n policyName s =
     (let policy = (if policyName = ''LRU'' then Some (LRU LRU_new)
                    else if policyName = ''LFU'' then Some (LFU LFU_new)
                    else None)
      in s\<lparr>cacheLevels := cacheLevels s @ [CacheLevel_new n policy]\<rparr>)"

definition removeCacheLevel :: "int \<Rightarrow> MultilevelCacheSystem \<Rightarrow> MultilevelCacheSystem" where
  "removeCacheLevel level s =
     (if 1 \<le> level \<and> size_t_of_int level \<le> length (cacheLevels s)
      then s\<lparr>cacheLevels := take (nat (level - 1)) (cacheLevels s) @
                              drop (Suc (nat (level - 1))) (cacheLevels s)\<rparr>
      else s)"

text \<open>
  The inner loop of \<^verbatim>\<open>get\<close>: \<^verbatim>\<open>for (j = i; j > 0; --j)
  cacheLevels[j - 1]->update(key, value)\<close>.
\<close>

fun promote :: "string \<Rightarrow> string \<Rightarrow> nat \<Rightarrow> CacheLevel list \<Rightarrow> CacheLevel list" where
  "promote key val 0 levels = levels"
| "promote key val (Suc j) levels =
     promote key val j (levels[j := CacheLevel_update key val (levels ! j)])"

text \<open>The outer loop of \<^verbatim>\<open>get\<close>, from index \<open>i\<close>.\<close>

function get_scan ::
  "string \<Rightarrow> nat \<Rightarrow> CacheLevel list \<Rightarrow> error + (string \<times> CacheLevel list)" where
  "get_scan key i levels =
     (if i < length levels
      then (case CacheLevel_get key (levels ! i) of
              Inl e \<Rightarrow> Inl e
            | Inr (val, lvl) \<Rightarrow>
                if val \<noteq> [] then Inr (val, promote key val i (levels[i := lvl]))
                else get_scan key (Suc i) (levels[i := lvl]))
      else Inr ([], levels))"
  by pat_completeness auto
termination
  by (relation "measure (\<lambda>(key, i, levels). length levels - i)") auto

definition MCS_get ::
  "string \<Rightarrow> MultilevelCacheSystem \<Rightarrow> error + (string \<times> MultilevelCacheSystem)" where
  "MCS_get key s =
     (case get_scan key 0 (cacheLevels s) of
        Inl e \<Rightarrow> Inl e
      | Inr (val, levels) \<Rightarrow> Inr (val, s\<lparr>cacheLevels := levels\<rparr>))"

definition MCS_put ::
  "string \<Rightarrow> string \<Rightarrow> MultilevelCacheSystem \<Rightarrow> error + MultilevelCacheSystem" where
  "MCS_put key val s =
     (case cacheLevels s of
        [] \<Rightarrow> Inl IndexOutOfRange
      | lvl # rest \<Rightarrow>
          (case CacheLevel_put key val lvl of
             Inl e \<Rightarrow> Inl e
           | Inr lvl' \<Rightarrow> Inr (s\<lparr>cacheLevels := lvl' # rest\<rparr>)))"

text \<open>The states a system takes through its public operations.\<close>

inductive reachable :: "MultilevelCacheSystem \<Rightarrow> bool" where
  init: "reachable MCS_new"
| add: "reachable s \<Longrightarrow> reachable (addCacheLevel n policyName s)"
| remove: "reachable s \<Longrightarrow> reachable (removeCacheLevel level s)"
| get: "reachable s \<Longrightarrow> MCS_get key s = Inr (val, s') \<Longrightarrow> reachable s'"
| put: "reachable s \<Longrightarrow> MCS_put key val s = Inr s' \<Longrightarrow> reachable s'"

definition level_value :: "string \<Rightarrow> CacheLevel \<Rightarrow> string" where
  \<comment> \<open>what a level stores for a key, empty when it stores nothing\<close>
  "level_value key lvl = (case map_of (data lvl) key of None \<Rightarrow> [] | Some v \<Rightarrow> v)"

subsection \<open>Calls with a defined result\<close>

fun access_defined :: "string \<Rightarrow> EvictionPolicy \<Rightarrow> bool" where
  \<comment> \<open>the increments of \<^verbatim>\<open>access(key)\<close> stay within \<^verbatim>\<open>int\<close>\<close>
  "access_defined key (LRU p) = True"
| "access_defined key (LFU p) =
     (int_at (frequencyMap p) key \<noteq> INT_MAX \<and> currentTime p \<noteq> INT_MAX)"

fun access_twice_defined :: "string \<Rightarrow> EvictionPolicy \<Rightarrow> bool" where
  \<comment> \<open>two \<^verbatim>\<open>access(key)\<close> calls in a row stay within \<^verbatim>\<open>int\<close>\<close>
  "access_twice_defined key (LRU p) = True"
| "access_twice_defined key (LFU p) =
     (int_at (frequencyMap p) key < INT_MAX - 1 \<and> currentTime p < INT_MAX - 1)"

text \<open>The invariant of the reachable states of a system.\<close>

definition system_inv :: "MultilevelCacheSystem \<Rightarrow> bool" where
  \<comment> \<open>every level is well formed, and only level 0 holds entries\<close>
  "system_inv s \<longleftrightarrow>
     list_all level_inv (cacheLevels s) \<and>
     list_all (\<lambda>l. data l = []) (tl (cacheLevels s))"

section \<open>The recency policy\<close>

lemma new_node_fresh_aux:
  "(a, k) \<in> set (nodes :: (nat \<times> string) list) \<Longrightarrow> a \<le> foldr max (map fst nodes) 0"
  by (induction nodes) (auto simp: max_def)

lemma new_node_fresh: "new_node nodes \<notin> fst ` set nodes"
proof
  assume "new_node nodes \<in> fst ` set nodes"
  then obtain k where "(new_node nodes, k) \<in> set nodes" by auto
  from new_node_fresh_aux [OF this] show False by (simp add: new_node_def)
qed

lemma LRU_inv_lookup:
  "LRU_inv p \<Longrightarrow> (map_of (cacheMap p) k = Some a) = ((a, k) \<in> set (accessOrder p))"
proof -
  assume inv: "LRU_inv p"
  then have "(map_of (cacheMap p) k = Some a) = ((k, a) \<in> set (cacheMap p))"
    by (simp add: LRU_inv_def)
  also have "\<dots> = ((k, a) \<in> prod.swap ` set (accessOrder p))"
    using inv by (simp add: LRU_inv_def)
  also have "\<dots> = ((a, k) \<in> set (accessOrder p))"
    by force
  finally show ?thesis .
qed

lemma LRU_inv_tracked: "LRU_inv p \<Longrightarrow> LRU_tracked p = set (LRU_order p)"
proof -
  assume inv: "LRU_inv p"
  then have "fst ` set (cacheMap p) = fst ` prod.swap ` set (accessOrder p)"
    by (simp add: LRU_inv_def)
  also have "\<dots> = snd ` set (accessOrder p)"
    by (simp add: image_image)
  finally show ?thesis
    by (simp add: LRU_tracked_def LRU_order_def)
qed

lemma LRU_inv_node_key:
  assumes "LRU_inv p" "(a, k) \<in> set (accessOrder p)" "n \<in> set (accessOrder p)"
  shows "(fst n = a) = (snd n = k)"
proof
  assume "fst n = a"
  moreover have "distinct (map fst (accessOrder p))"
    using assms(1) by (simp add: LRU_inv_def)
  ultimately show "snd n = k"
    using assms(2,3) eq_key_imp_eq_value [of "accessOrder p" a k "snd n"] by (cases n) simp
next
  assume "snd n = k"
  then have "map_of (cacheMap p) k = Some (fst n)"
    using assms(1,3) LRU_inv_lookup [of p k "fst n"] by (cases n) simp
  moreover have "map_of (cacheMap p) k = Some a"
    using assms(1,2) LRU_inv_lookup by simp
  ultimately show "fst n = a" by simp
qed

lemma distinct_snd_nodes:
  "distinct (map fst nodes) \<Longrightarrow>
   (\<forall>n\<in>set nodes. \<forall>m\<in>set nodes. snd n = snd m \<longrightarrow> fst n = fst m) \<Longrightarrow>
   distinct (map snd nodes)"
proof (induction nodes)
  case Nil
  then show ?case by simp
next
  case (Cons n nodes)
  have "snd n \<notin> snd ` set nodes"
  proof
    assume "snd n \<in> snd ` set nodes"
    then obtain m where m: "m \<in> set nodes" "snd n = snd m" by auto
    have "fst n = fst m"
      using Cons.prems(2) [rule_format, of n m] m by simp
    moreover have "fst m \<in> fst ` set nodes"
      using m(1) by (rule imageI)
    moreover have "fst n \<notin> fst ` set nodes"
      using Cons.prems(1) by simp
    ultimately show False by metis
  qed
  moreover have "distinct (map snd nodes)"
  proof (rule Cons.IH)
    show "distinct (map fst nodes)"
      using Cons.prems(1) by simp
    show "\<forall>n\<in>set nodes. \<forall>m\<in>set nodes. snd n = snd m \<longrightarrow> fst n = fst m"
    proof (intro ballI impI)
      fix a b assume "a \<in> set nodes" "b \<in> set nodes" "snd a = snd b"
      then show "fst a = fst b"
        using Cons.prems(2) [rule_format, of a b] by simp
    qed
  qed
  ultimately show ?case by simp
qed

lemma LRU_inv_distinct: "LRU_inv p \<Longrightarrow> distinct (LRU_order p)"
  unfolding LRU_order_def
proof (rule distinct_snd_nodes)
  assume inv: "LRU_inv p"
  then show "distinct (map fst (accessOrder p))"
    by (simp add: LRU_inv_def)
  show "\<forall>n\<in>set (accessOrder p). \<forall>m\<in>set (accessOrder p). snd n = snd m \<longrightarrow> fst n = fst m"
  proof (intro ballI impI)
    fix n m assume "n \<in> set (accessOrder p)" "m \<in> set (accessOrder p)" "snd n = snd m"
    then show "fst n = fst m"
      using LRU_inv_node_key [OF inv, of "fst m" "snd m" n] by simp
  qed
qed

lemma LRU_new_inv: "LRU_inv LRU_new"
  by (simp add: LRU_inv_def LRU_new_def)

lemma erase_node_keys:
  "\<forall>n\<in>set nodes. (fst n = a) = (snd n = k) \<Longrightarrow>
   map snd (filter (\<lambda>n. fst n \<noteq> a) nodes) = removeAll k (map snd nodes)"
  by (induction nodes) auto

lemma set_update:
  "distinct (map fst al) \<Longrightarrow>
   set (AList.update k v al) = insert (k, v) (set al - {e. fst e = k})"
  by (induction al) (auto simp: image_iff)

lemma set_delete: "set (AList.delete k al) = set al - {e. fst e = k}"
  by (auto simp: AList.delete_eq)

lemma LRU_push_inv:
  assumes d: "distinct (map fst nodes)" and dm: "distinct (map fst cm)"
    and fresh: "a \<notin> fst ` set nodes"
    and rest: "set cm - {e. fst e = k} = prod.swap ` set nodes"
  shows "LRU_inv \<lparr>accessOrder = nodes @ [(a, k)], cacheMap = AList.update k a cm\<rparr>"
proof -
  have "set (AList.update k a cm) = insert (k, a) (prod.swap ` set nodes)"
    using dm rest by (simp add: set_update)
  then show ?thesis
    using d dm fresh by (simp add: LRU_inv_def distinct_update)
qed

lemma LRU_access_ok:
  assumes "LRU_inv p"
  shows "\<exists>p'. LRU_access k p = Inr p' \<and> LRU_inv p' \<and>
           LRU_order p' = removeAll k (LRU_order p) @ [k]"
proof (cases "map_of (cacheMap p) k")
  case None
  then have notin: "k \<notin> fst ` set (cacheMap p)"
    by (simp add: map_of_eq_None_iff)
  then have eq: "set (cacheMap p) - {e. fst e = k} = prod.swap ` set (accessOrder p)"
    using assms by (auto simp: LRU_inv_def)
  have notin': "k \<notin> set (LRU_order p)"
    using notin LRU_inv_tracked [OF assms] by (simp add: LRU_tracked_def)
  let ?a = "new_node (accessOrder p)"
  let ?p' = "\<lparr>accessOrder = accessOrder p @ [(?a, k)],
             cacheMap = AList.update k ?a (cacheMap p)\<rparr>"
  have 1: "LRU_access k p = Inr ?p'"
    using None by (simp add: LRU_access_def)
  have 2: "LRU_inv ?p'"
    using assms eq by (intro LRU_push_inv new_node_fresh) (simp_all add: LRU_inv_def)
  have 3: "LRU_order ?p' = removeAll k (LRU_order p) @ [k]"
    using notin' by (simp add: LRU_order_def)
  show ?thesis using 1 2 3 by blast
next
  case (Some a)
  then have mem: "(a, k) \<in> set (accessOrder p)"
    using assms by (simp add: LRU_inv_lookup)
  have key: "\<forall>n\<in>set (accessOrder p). (fst n = a) = (snd n = k)"
    using LRU_inv_node_key [OF assms mem] by blast
  let ?nodes = "filter (\<lambda>n. fst n \<noteq> a) (accessOrder p)"
  let ?a = "new_node ?nodes"
  let ?p' = "\<lparr>accessOrder = ?nodes @ [(?a, k)],
             cacheMap = AList.update k ?a (cacheMap p)\<rparr>"
  have "a \<in> fst ` set (accessOrder p)"
    using mem by force
  then have 1: "LRU_access k p = Inr ?p'"
    using Some by (simp add: LRU_access_def list_erase_def)
  have eq: "set (cacheMap p) - {e. fst e = k} = prod.swap ` set ?nodes"
  proof -
    have "set (cacheMap p) = prod.swap ` set (accessOrder p)"
      using assms by (simp add: LRU_inv_def)
    then show ?thesis using key by force
  qed
  have 2: "LRU_inv ?p'"
    using assms eq
    by (intro LRU_push_inv new_node_fresh) (simp_all add: LRU_inv_def distinct_map_filter)
  have 3: "LRU_order ?p' = removeAll k (LRU_order p) @ [k]"
    using erase_node_keys [OF key] by (simp add: LRU_order_def)
  show ?thesis using 1 2 3 by blast
qed

lemma LRU_evict_ok:
  assumes "LRU_inv p" "accessOrder p \<noteq> []"
  shows "\<exists>p'. LRU_evict p = Inr (hd (LRU_order p), p') \<and> LRU_inv p' \<and>
           LRU_order p' = tl (LRU_order p)"
proof -
  obtain a k nodes where nodes: "accessOrder p = (a, k) # nodes"
    using assms(2) by (cases "accessOrder p") auto
  let ?p' = "\<lparr>accessOrder = nodes, cacheMap = AList.delete k (cacheMap p)\<rparr>"
  have 1: "LRU_evict p = Inr (hd (LRU_order p), ?p')"
    by (simp add: LRU_evict_def nodes LRU_order_def)
  have key: "\<forall>n\<in>set (accessOrder p). (fst n = a) = (snd n = k)"
    using LRU_inv_node_key [OF assms(1), of a k] nodes by simp
  have "a \<notin> fst ` set nodes"
    using assms(1) nodes by (simp add: LRU_inv_def)
  then have "set (cacheMap p) - {e. fst e = k} = prod.swap ` set nodes"
    using assms(1) key nodes by (force simp: LRU_inv_def)
  then have 2: "LRU_inv ?p'"
    using assms(1) nodes by (simp add: LRU_inv_def set_delete distinct_delete)
  have 3: "LRU_order ?p' = tl (LRU_order p)"
    by (simp add: LRU_order_def nodes)
  show ?thesis using 1 2 3 by blast
qed

lemma remdups_removeAll_app: "remdups (removeAll k xs @ k # ks) = remdups (xs @ k # ks)"
  by (induction xs) auto

lemma LRU_access_all_ok:
  "LRU_inv p \<Longrightarrow>
   \<exists>p'. LRU_access_all ks p = Inr p' \<and> LRU_inv p' \<and> LRU_order p' = remdups (LRU_order p @ ks)"
proof (induction ks arbitrary: p)
  case Nil
  then show ?case
    using LRU_inv_distinct [of p] by (simp add: distinct_remdups_id)
next
  case (Cons k ks)
  obtain p1 where p1: "LRU_access k p = Inr p1" "LRU_inv p1"
      "LRU_order p1 = removeAll k (LRU_order p) @ [k]"
    using LRU_access_ok [OF Cons.prems] by blast
  obtain p' where p': "LRU_access_all ks p1 = Inr p'" "LRU_inv p'"
      "LRU_order p' = remdups (LRU_order p1 @ ks)"
    using Cons.IH [OF p1(2)] by blast
  have "LRU_order p' = remdups (LRU_order p @ k # ks)"
    using p'(3) p1(3) remdups_removeAll_app [of k "LRU_order p" ks] by simp
  then show ?case
    using p1(1) p'(1,2) by simp
qed

lemma last_touch_None: "(last_touch h k = None) = (k \<notin> set h)"
  by (induction h) (auto split: option.splits)

lemma last_touch_index:
  "last_touch h k = Some i \<Longrightarrow> i < length h \<and> h ! i = k \<and> (\<forall>j<length h. i < j \<longrightarrow> h ! j \<noteq> k)"
proof (induction h arbitrary: i)
  case Nil
  then show ?case by simp
next
  case (Cons x xs)
  show ?case
  proof (cases "last_touch xs k")
    case None
    then have "k \<notin> set xs" by (simp add: last_touch_None)
    moreover have "i = 0 \<and> x = k"
      using Cons.prems None by (simp split: if_splits)
    ultimately show ?thesis
      by (auto simp: nth_Cons' )
  next
    case (Some n)
    then have i: "i = Suc n" using Cons.prems by simp
    from Cons.IH [OF Some] show ?thesis
      unfolding i by (auto simp: nth_Cons split: nat.splits)
  qed
qed

lemma touched_before_Cons:
  "touched_before xs a b \<Longrightarrow> touched_before (x # xs) a b"
  by (auto simp: touched_before_def split: option.splits)

lemma touched_before_fresh:
  "a \<notin> set xs \<Longrightarrow> b \<in> set xs \<Longrightarrow> touched_before (a # xs) a b"
  using last_touch_None [of xs a] last_touch_None [of xs b]
  by (auto simp: touched_before_def split: option.splits)

lemma hd_remdups_least_recent:
  "h \<noteq> [] \<Longrightarrow>
   hd (remdups h) \<in> set h \<and>
   (\<forall>k\<in>set h. k \<noteq> hd (remdups h) \<longrightarrow> touched_before h (hd (remdups h)) k)"
proof (induction h)
  case Nil
  then show ?case by simp
next
  case (Cons x xs)
  show ?case
  proof (cases "x \<in> set xs")
    case True
    then have "xs \<noteq> []" by auto
    from Cons.IH [OF this] True show ?thesis
      by (auto intro: touched_before_Cons)
  next
    case False
    then show ?thesis
      by (auto intro: touched_before_fresh)
  qed
qed

lemma LRU_access_tracked_position:
  assumes inv: "LRU_inv p" and k: "k \<in> LRU_tracked p"
  shows "\<exists>q. LRU_access k p = Inr q \<and> LRU_inv q \<and> LRU_tracked q = LRU_tracked p \<and>
           last (LRU_order q) = k \<and>
           (\<forall>xs ys. LRU_order p = xs @ k # ys \<longrightarrow> LRU_order q = xs @ ys @ [k])"
proof -
  obtain q where q: "LRU_access k p = Inr q" "LRU_inv q"
      "LRU_order q = removeAll k (LRU_order p) @ [k]"
    using LRU_access_ok [OF inv] by blast
  have "LRU_tracked q = LRU_tracked p"
    using k q(3) by (auto simp: LRU_inv_tracked [OF inv] LRU_inv_tracked [OF q(2)])
  moreover have "\<forall>xs ys. LRU_order p = xs @ k # ys \<longrightarrow> LRU_order q = xs @ ys @ [k]"
  proof (intro allI impI)
    fix xs ys assume eq: "LRU_order p = xs @ k # ys"
    then have "k \<notin> set xs \<and> k \<notin> set ys"
      using LRU_inv_distinct [OF inv] by simp
    then show "LRU_order q = xs @ ys @ [k]"
      by (simp add: q(3) eq)
  qed
  ultimately show ?thesis
    using q by simp
qed

text \<open>
  C1. From any well-formed state \<open>p0\<close> every sequence \<open>ks\<close> of \<^verbatim>\<open>access\<close>
  calls returns, and then tracks the keys of \<open>p0\<close> and of \<open>ks\<close>. If a key is
  tracked, \<^verbatim>\<open>evict\<close> returns a tracked key \<open>v\<close>, stops tracking it and leaves the
  order of the others as it is; the last touch of \<open>v\<close> in the history (the order
  of \<open>p0\<close>, then \<open>ks\<close>) is before the last touch of every other tracked key.
  \<^verbatim>\<open>access\<close> of a tracked key takes the key out of its position in the order and
  appends it at the most recent end, and a second \<^verbatim>\<open>access\<close> of the key leaves it
  there.
\<close>

theorem LRU_evicts_least_recently_touched:
  assumes inv: "LRU_inv p0"
  shows "\<exists>p. LRU_access_all ks p0 = Inr p \<and>
           LRU_tracked p = LRU_tracked p0 \<union> set ks \<and>
           (LRU_tracked p \<noteq> {} \<longrightarrow>
              (\<exists>v p'. LRU_evict p = Inr (v, p') \<and> v \<in> LRU_tracked p \<and>
                  LRU_tracked p' = LRU_tracked p - {v} \<and>
                  LRU_order p' = tl (LRU_order p) \<and>
                  (\<forall>k\<in>LRU_tracked p. k \<noteq> v \<longrightarrow>
                      touched_before (LRU_order p0 @ ks) v k))) \<and>
           (\<forall>k\<in>LRU_tracked p.
              \<exists>q. LRU_access k p = Inr q \<and> LRU_tracked q = LRU_tracked p \<and>
                  last (LRU_order q) = k \<and>
                  (\<forall>xs ys. LRU_order p = xs @ k # ys \<longrightarrow> LRU_order q = xs @ ys @ [k]) \<and>
                  (\<exists>q'. LRU_access k q = Inr q' \<and> LRU_order q' = LRU_order q))"
proof -
  let ?h = "LRU_order p0 @ ks"
  obtain p where p: "LRU_access_all ks p0 = Inr p" "LRU_inv p" "LRU_order p = remdups ?h"
    using LRU_access_all_ok [OF inv] by blast
  have tr: "LRU_tracked p = set ?h"
    using p(3) by (simp add: LRU_inv_tracked [OF p(2)])
  have 1: "LRU_tracked p = LRU_tracked p0 \<union> set ks"
    using tr by (simp add: LRU_inv_tracked [OF inv])
  have 2: "\<exists>v p'. LRU_evict p = Inr (v, p') \<and> v \<in> LRU_tracked p \<and>
              LRU_tracked p' = LRU_tracked p - {v} \<and> LRU_order p' = tl (LRU_order p) \<and>
              (\<forall>k\<in>LRU_tracked p. k \<noteq> v \<longrightarrow> touched_before ?h v k)"
    if ne: "LRU_tracked p \<noteq> {}"
  proof -
    have h: "?h \<noteq> []" using ne tr by auto
    then have "accessOrder p \<noteq> []"
      using p(3) by (auto simp: LRU_order_def)
    then obtain p' where p': "LRU_evict p = Inr (hd (LRU_order p), p')" "LRU_inv p'"
        "LRU_order p' = tl (LRU_order p)"
      using LRU_evict_ok [OF p(2)] by blast
    let ?v = "hd (LRU_order p)"
    have v: "?v \<in> set ?h \<and> (\<forall>k\<in>set ?h. k \<noteq> ?v \<longrightarrow> touched_before ?h ?v k)"
      using hd_remdups_least_recent [OF h] by (simp add: p(3))
    have ne': "LRU_order p \<noteq> []"
      using h p(3) by simp
    have "set (tl (LRU_order p)) = set (LRU_order p) - {?v}"
      using LRU_inv_distinct [OF p(2)] ne' by (cases "LRU_order p") auto
    then have t': "LRU_tracked p' = LRU_tracked p - {?v}"
      by (simp add: LRU_inv_tracked [OF p'(2)] LRU_inv_tracked [OF p(2)] p'(3))
    show ?thesis
    proof (intro exI conjI)
      show "LRU_evict p = Inr (?v, p')" by (rule p'(1))
      show "?v \<in> LRU_tracked p" using v by (simp add: tr)
      show "LRU_tracked p' = LRU_tracked p - {?v}" by (rule t')
      show "LRU_order p' = tl (LRU_order p)" by (rule p'(3))
      show "\<forall>k\<in>LRU_tracked p. k \<noteq> ?v \<longrightarrow> touched_before ?h ?v k"
        using v by (simp add: tr)
    qed
  qed
  have 3: "\<exists>q. LRU_access k p = Inr q \<and> LRU_tracked q = LRU_tracked p \<and>
              last (LRU_order q) = k \<and>
              (\<forall>xs ys. LRU_order p = xs @ k # ys \<longrightarrow> LRU_order q = xs @ ys @ [k]) \<and>
              (\<exists>q'. LRU_access k q = Inr q' \<and> LRU_order q' = LRU_order q)"
    if k: "k \<in> LRU_tracked p" for k
  proof -
    obtain q where q: "LRU_access k p = Inr q" "LRU_inv q" "LRU_tracked q = LRU_tracked p"
        "last (LRU_order q) = k"
        "\<forall>xs ys. LRU_order p = xs @ k # ys \<longrightarrow> LRU_order q = xs @ ys @ [k]"
      using LRU_access_tracked_position [OF p(2) k] by blast
    have kq: "k \<in> LRU_tracked q" using q(3) k by simp
    obtain q' where q': "LRU_access k q = Inr q'"
        "\<forall>xs ys. LRU_order q = xs @ k # ys \<longrightarrow> LRU_order q' = xs @ ys @ [k]"
      using LRU_access_tracked_position [OF q(2) kq] by blast
    have "LRU_order q \<noteq> []"
      using kq by (auto simp: LRU_inv_tracked [OF q(2)])
    then have "LRU_order q = butlast (LRU_order q) @ k # []"
      using q(4) by (metis append_butlast_last_id)
    then have "LRU_order q' = butlast (LRU_order q) @ [] @ [k]"
      using q'(2) by blast
    then have same: "LRU_order q' = LRU_order q"
      using \<open>LRU_order q = butlast (LRU_order q) @ k # []\<close> by simp
    show ?thesis
    proof (intro exI conjI)
      show "LRU_access k p = Inr q" by (rule q(1))
      show "LRU_tracked q = LRU_tracked p" by (rule q(3))
      show "last (LRU_order q) = k" by (rule q(4))
      show "\<forall>xs ys. LRU_order p = xs @ k # ys \<longrightarrow> LRU_order q = xs @ ys @ [k]" by (rule q(5))
      show "LRU_access k q = Inr q'" by (rule q'(1))
      show "LRU_order q' = LRU_order q" by (rule same)
    qed
  qed
  show ?thesis
  proof (intro exI conjI)
    show "LRU_access_all ks p0 = Inr p" by (rule p(1))
    show "LRU_tracked p = LRU_tracked p0 \<union> set ks" by (rule 1)
    show "LRU_tracked p \<noteq> {} \<longrightarrow>
              (\<exists>v p'. LRU_evict p = Inr (v, p') \<and> v \<in> LRU_tracked p \<and>
                  LRU_tracked p' = LRU_tracked p - {v} \<and>
                  LRU_order p' = tl (LRU_order p) \<and>
                  (\<forall>k\<in>LRU_tracked p. k \<noteq> v \<longrightarrow>
                      touched_before (LRU_order p0 @ ks) v k))"
      by (rule impI) (rule 2)
    show "\<forall>k\<in>LRU_tracked p.
              \<exists>q. LRU_access k p = Inr q \<and> LRU_tracked q = LRU_tracked p \<and>
                  last (LRU_order q) = k \<and>
                  (\<forall>xs ys. LRU_order p = xs @ k # ys \<longrightarrow> LRU_order q = xs @ ys @ [k]) \<and>
                  (\<exists>q'. LRU_access k q = Inr q' \<and> LRU_order q' = LRU_order q)"
      by (rule ballI) (rule 3)
  qed
qed

lemmas LRU_test_defs = LRU_new_def LRU_access_def LRU_evict_def list_erase_def new_node_def
  LRU_tracked_def LRU_order_def LRU_inv_def

theorem LRU_evicts_least_recently_touched_witness:
  "LRU_inv LRU_new \<and>
   LRU_access_all [''A'', ''B'', ''A''] LRU_new =
     Inr \<lparr>accessOrder = [(2, ''B''), (3, ''A'')], cacheMap = [(''A'', 3), (''B'', 2)]\<rparr> \<and>
   LRU_evict \<lparr>accessOrder = [(2, ''B''), (3, ''A'')], cacheMap = [(''A'', 3), (''B'', 2)]\<rparr> =
     Inr (''B'', \<lparr>accessOrder = [(3, ''A'')], cacheMap = [(''A'', 3)]\<rparr>) \<and>
   touched_before (LRU_order LRU_new @ [''A'', ''B'', ''A'']) ''B'' ''A''"
proof -
  let ?ks = "[''A'', ''B'', ''A'']"
  let ?p = "\<lparr>accessOrder = [(2, ''B''), (3, ''A'')], cacheMap = [(''A'', 3), (''B'', 2)]\<rparr>"
  have inv: "LRU_inv LRU_new"
    by (simp add: LRU_inv_def LRU_new_def)
  have run: "LRU_access_all ?ks LRU_new = Inr ?p"
    by (simp add: LRU_test_defs)
  have ev: "LRU_evict ?p = Inr (''B'', \<lparr>accessOrder = [(3, ''A'')], cacheMap = [(''A'', 3)]\<rparr>)"
    by (simp add: LRU_test_defs)
  have tr: "LRU_tracked ?p = {''A'', ''B''}"
    by (simp add: LRU_test_defs)
  from LRU_evicts_least_recently_touched [OF inv, of ?ks]
  obtain p where p: "LRU_access_all ?ks LRU_new = Inr p \<and>
      LRU_tracked p = LRU_tracked LRU_new \<union> set ?ks \<and>
      (LRU_tracked p \<noteq> {} \<longrightarrow>
        (\<exists>v p'. LRU_evict p = Inr (v, p') \<and> v \<in> LRU_tracked p \<and>
           LRU_tracked p' = LRU_tracked p - {v} \<and> LRU_order p' = tl (LRU_order p) \<and>
           (\<forall>k\<in>LRU_tracked p. k \<noteq> v \<longrightarrow> touched_before (LRU_order LRU_new @ ?ks) v k)))"
    by (elim exE conjE) (intro that conjI)
  then have pp: "p = ?p"
    using run by simp
  have "LRU_tracked ?p \<noteq> {}"
    unfolding tr by simp
  with p obtain v p' where v: "LRU_evict ?p = Inr (v, p')"
    and before: "\<forall>k\<in>LRU_tracked ?p. k \<noteq> v \<longrightarrow> touched_before (LRU_order LRU_new @ ?ks) v k"
    unfolding pp by (elim exE conjE impE) (assumption, rule that)
  have "v = ''B''"
    using v ev by simp
  then have "touched_before (LRU_order LRU_new @ ?ks) ''B'' ''A''"
    using before unfolding tr by simp
  then show ?thesis
    using inv run ev by (intro conjI)
qed

section \<open>The frequency policy\<close>

lemma int_at_update: "int_at (AList.update k v m) k' = (if k' = k then v else int_at m k')"
  by (simp add: int_at_def update_conv')

lemma int_at_delete: "k' \<noteq> k \<Longrightarrow> int_at (AList.delete k m) k' = int_at m k'"
  by (simp add: int_at_def delete_conv')

lemma int_at_entry: "distinct (map fst m) \<Longrightarrow> (k, c) \<in> set m \<Longrightarrow> int_at m k = c"
  by (simp add: int_at_def)

lemma int_at_absent: "k \<notin> fst ` set m \<Longrightarrow> int_at m k = 0"
  using map_of_eq_None_iff [of m k] by (simp add: int_at_def)

lemma list_all_update:
  "list_all P al \<Longrightarrow> P (k, v) \<Longrightarrow> list_all P (AList.update k v al)"
  by (induction al) auto

lemma list_all_delete: "list_all P al \<Longrightarrow> list_all P (AList.delete k al)"
  by (induction al) auto

lemma update_same_int_at: "k \<in> fst ` set m \<Longrightarrow> AList.update k (int_at m k) m = m"
proof -
  assume "k \<in> fst ` set m"
  then obtain v where "map_of m k = Some v"
    by (metis map_of_eq_None_iff not_Some_eq)
  then show ?thesis
    by (simp add: int_at_def update_triv)
qed

lemma LFU_scan_keyOrder:
  "\<forall>e\<in>set xs. fst e \<in> fst ` set ko \<Longrightarrow> fst (LFU_scan xs (ko, k0, f0, o0)) = ko"
proof (induction xs arbitrary: k0 f0 o0)
  case Nil
  then show ?case by simp
next
  case (Cons e xs)
  obtain key freq where e: "e = (key, freq)" by (cases e)
  have "key \<in> fst ` set ko" using Cons.prems e by simp
  then have same: "AList.update key (int_at ko key) ko = ko"
    by (rule update_same_int_at)
  have rest: "\<forall>e\<in>set xs. fst e \<in> fst ` set ko" using Cons.prems by simp
  show ?case
    using Cons.IH [OF rest] by (simp add: e same Let_def split: if_splits)
qed

lemma LFU_scan_min:
  assumes "\<forall>e\<in>set xs. fst e \<in> fst ` set ko"
    and "LFU_scan xs (ko, k0, f0, o0) = (ko', k1, f1, o1)"
  shows "((k1, f1, o1) = (k0, f0, o0) \<or> ((k1, f1) \<in> set xs \<and> o1 = int_at ko k1)) \<and>
         \<not> (f0 < f1 \<or> (f0 = f1 \<and> o0 < o1)) \<and>
         (\<forall>e\<in>set xs. \<not> (snd e < f1 \<or> (snd e = f1 \<and> int_at ko (fst e) < o1)))"
  using assms
proof (induction xs arbitrary: k0 f0 o0)
  case Nil
  then show ?case by simp
next
  case (Cons e xs)
  obtain key freq where e: "e = (key, freq)" by (cases e)
  have "key \<in> fst ` set ko" using Cons.prems(1) e by simp
  then have same: "AList.update key (int_at ko key) ko = ko"
    by (rule update_same_int_at)
  have rest: "\<forall>e\<in>set xs. fst e \<in> fst ` set ko" using Cons.prems(1) by simp
  let ?order = "int_at ko key"
  show ?case
  proof (cases "freq < f0 \<or> (freq = f0 \<and> ?order < o0)")
    case True
    then have "LFU_scan xs (ko, key, freq, ?order) = (ko', k1, f1, o1)"
      using Cons.prems(2) by (simp add: e same Let_def split: if_splits)
    from Cons.IH [OF rest this] True show ?thesis
      by (auto simp: e)
  next
    case False
    then have "LFU_scan xs (ko, k0, f0, o0) = (ko', k1, f1, o1)"
      using Cons.prems(2) by (simp add: e same Let_def split: if_splits)
    from Cons.IH [OF rest this] False show ?thesis
      by (auto simp: e)
  qed
qed

lemma LFU_inv_keys: "LFU_inv p \<Longrightarrow> \<forall>e\<in>set (frequencyMap p). fst e \<in> fst ` set (keyOrder p)"
proof
  fix e assume inv: "LFU_inv p" and e: "e \<in> set (frequencyMap p)"
  have "fst e \<in> fst ` set (frequencyMap p)"
    using e by (rule imageI)
  moreover have "fst ` set (frequencyMap p) = fst ` set (keyOrder p)"
    using inv by (simp add: LFU_inv_def)
  ultimately show "fst e \<in> fst ` set (keyOrder p)" by simp
qed

lemma LFU_evict_shape:
  assumes inv: "LFU_inv p"
  shows "\<exists>v f t. LFU_scan (frequencyMap p) (keyOrder p, [], INT_MAX, INT_MAX) = (keyOrder p, v, f, t) \<and>
           LFU_evict p = (v, \<lparr>frequencyMap = AList.delete v (frequencyMap p),
                               keyOrder = AList.delete v (keyOrder p),
                               currentTime = currentTime p\<rparr>)"
proof -
  obtain ko v f t where r: "LFU_scan (frequencyMap p) (keyOrder p, [], INT_MAX, INT_MAX) = (ko, v, f, t)"
    by (metis prod_cases4)
  have "ko = keyOrder p"
    using LFU_scan_keyOrder [OF LFU_inv_keys [OF inv], of "[]" INT_MAX INT_MAX] r by simp
  then show ?thesis
    using r by (simp add: LFU_evict_def)
qed

lemma LFU_evict_inv:
  assumes inv: "LFU_inv p" and ev: "LFU_evict p = (v, p')"
  shows "LFU_inv p' \<and> LFU_tracked p' = LFU_tracked p - {v} \<and>
         frequencyMap p' = AList.delete v (frequencyMap p) \<and>
         keyOrder p' = AList.delete v (keyOrder p) \<and> currentTime p' = currentTime p"
proof -
  have p': "p' = \<lparr>frequencyMap = AList.delete v (frequencyMap p),
                  keyOrder = AList.delete v (keyOrder p), currentTime = currentTime p\<rparr>"
    using LFU_evict_shape [OF inv] ev by auto
  have "LFU_inv p'"
    using inv unfolding p' LFU_inv_def
    by (simp add: delete_keys distinct_removeAll list_all_delete)
  moreover have "LFU_tracked p' = LFU_tracked p - {v}"
    unfolding p' by (auto simp: LFU_tracked_def delete_keys)
  ultimately show ?thesis
    by (simp add: p')
qed

lemma LFU_evict_min:
  assumes inv: "LFU_inv p" and ne: "frequencyMap p \<noteq> []" and ev: "LFU_evict p = (v, p')"
  shows "v \<in> LFU_tracked p \<and> (\<forall>k\<in>LFU_tracked p. LFU_le p v k)"
proof -
  let ?fm = "frequencyMap p" and ?ko = "keyOrder p"
  obtain f t where r: "LFU_scan ?fm (?ko, [], INT_MAX, INT_MAX) = (?ko, v, f, t)"
    using LFU_evict_shape [OF inv] ev by auto
  have d: "distinct (map fst ?fm)" using inv by (simp add: LFU_inv_def)
  note m = LFU_scan_min [OF LFU_inv_keys [OF inv] r]
  have alt: "(v, f, t) = ([], INT_MAX, INT_MAX) \<or> ((v, f) \<in> set ?fm \<and> t = int_at ?ko v)"
    using m by blast
  have low: "\<forall>e\<in>set ?fm. \<not> (snd e < f \<or> (snd e = f \<and> int_at ?ko (fst e) < t))"
    using m by blast
  obtain k0 c0 xs where hd: "?fm = (k0, c0) # xs"
    using ne by (cases ?fm) auto
  have c0: "c0 \<le> INT_MAX"
    using inv hd by (simp add: LFU_inv_def)
  have "k0 \<in> fst ` set ?ko"
    using LFU_inv_keys [OF inv] hd by simp
  then obtain t0 where t0: "(k0, t0) \<in> set ?ko" by auto
  have "distinct (map fst ?ko)" using inv by (simp add: LFU_inv_def)
  then have "int_at ?ko k0 = t0" using t0 by (rule int_at_entry)
  moreover have "t0 < currentTime p"
    using inv t0 by (auto simp: LFU_inv_def list_all_iff)
  moreover have "currentTime p \<le> INT_MAX" using inv by (simp add: LFU_inv_def)
  ultimately have o0: "int_at ?ko k0 < INT_MAX" by simp
  have "\<not> (c0 < f \<or> (c0 = f \<and> int_at ?ko k0 < t))"
    using low hd by simp
  then have "(f, t) \<noteq> (INT_MAX, INT_MAX)"
    using c0 o0 by auto
  then have mem: "(v, f) \<in> set ?fm" and t: "t = int_at ?ko v"
    using alt by auto
  have f: "f = int_at ?fm v"
    using int_at_entry [OF d mem] by simp
  have 1: "v \<in> LFU_tracked p"
    using mem by (force simp: LFU_tracked_def)
  have 2: "LFU_le p v k" if "k \<in> LFU_tracked p" for k
  proof -
    from that obtain c where c: "(k, c) \<in> set ?fm"
      by (auto simp: LFU_tracked_def)
    then have "int_at ?fm k = c" using int_at_entry [OF d] by simp
    moreover have "\<not> (c < f \<or> (c = f \<and> int_at ?ko k < t))"
      using low c by force
    ultimately show ?thesis
      unfolding LFU_le_def f t by auto
  qed
  show ?thesis using 1 2 by simp
qed

lemma LFU_evict_empty: "frequencyMap p = [] \<Longrightarrow> fst (LFU_evict p) = []"
  by (simp add: LFU_evict_def)

lemma LFU_access_ok:
  assumes inv: "LFU_inv p"
    and nf: "int_at (frequencyMap p) k \<noteq> INT_MAX" and nt: "currentTime p \<noteq> INT_MAX"
  shows "\<exists>p'. LFU_access k p = Inr p' \<and> LFU_inv p' \<and>
           LFU_tracked p' = insert k (LFU_tracked p) \<and>
           frequencyMap p' = AList.update k (int_at (frequencyMap p) k + 1) (frequencyMap p) \<and>
           keyOrder p' = AList.update k (currentTime p) (keyOrder p) \<and>
           currentTime p' = currentTime p + 1"
proof -
  let ?c = "int_at (frequencyMap p) k"
  let ?p' = "\<lparr>frequencyMap = AList.update k (?c + 1) (frequencyMap p),
              keyOrder = AList.update k (currentTime p) (keyOrder p),
              currentTime = currentTime p + 1\<rparr>"
  have acc: "LFU_access k p = Inr ?p'"
    using nf nt by (simp add: LFU_access_def)
  have "?c \<le> INT_MAX"
  proof (cases "map_of (frequencyMap p) k")
    case None
    then show ?thesis by (simp add: int_at_def INT_MAX_def)
  next
    case (Some c)
    then have "(k, c) \<in> set (frequencyMap p)" by (rule map_of_SomeD)
    then show ?thesis
      using inv Some by (auto simp: LFU_inv_def list_all_iff int_at_def)
  qed
  then have c: "?c + 1 \<le> INT_MAX" using nf by simp
  have t: "currentTime p + 1 \<le> INT_MAX"
    using inv nt by (simp add: LFU_inv_def)
  have older: "list_all (\<lambda>e. snd e < currentTime p + 1) (keyOrder p)"
    using inv by (auto simp: LFU_inv_def list_all_iff)
  have "LFU_inv ?p'"
    unfolding LFU_inv_def using inv c t older
    by (simp add: LFU_inv_def distinct_update list_all_update dom_update)
  moreover have "LFU_tracked ?p' = insert k (LFU_tracked p)"
    by (simp add: LFU_tracked_def dom_update)
  ultimately show ?thesis
    using acc by simp
qed

text \<open>
  C2. On a well-formed state, an \<^verbatim>\<open>access\<close> of \<open>k\<close> that overflows neither the
  count of \<open>k\<close> nor the counter returns; it adds one to the count of \<open>k\<close> (a key
  that was not tracked gets count 1), gives \<open>k\<close> the value of the counter as its
  sequence number, adds one to the counter, and leaves the counts and sequence
  numbers of the other keys as they are. If a key is tracked, \<^verbatim>\<open>evict\<close> returns a
  tracked key \<open>v\<close> such that every tracked key has a larger count than \<open>v\<close>, or
  the same count and a sequence number that is not smaller, and erases \<open>v\<close> from
  \<^verbatim>\<open>frequencyMap\<close> and from \<^verbatim>\<open>keyOrder\<close>.
\<close>

theorem LFU_counts_accesses_and_evicts_least_frequent:
  assumes inv: "LFU_inv p"
  shows "(int_at (frequencyMap p) k \<noteq> INT_MAX \<and> currentTime p \<noteq> INT_MAX \<longrightarrow>
            (\<exists>p'. LFU_access k p = Inr p' \<and>
                int_at (frequencyMap p') k = int_at (frequencyMap p) k + 1 \<and>
                (k \<notin> LFU_tracked p \<longrightarrow> int_at (frequencyMap p') k = 1) \<and>
                int_at (keyOrder p') k = currentTime p \<and>
                currentTime p' = currentTime p + 1 \<and>
                (\<forall>j. j \<noteq> k \<longrightarrow>
                    int_at (frequencyMap p') j = int_at (frequencyMap p) j \<and>
                    int_at (keyOrder p') j = int_at (keyOrder p) j) \<and>
                LFU_tracked p' = insert k (LFU_tracked p))) \<and>
         (LFU_tracked p \<noteq> {} \<longrightarrow>
            (\<exists>v p'. LFU_evict p = (v, p') \<and> v \<in> LFU_tracked p \<and>
                (\<forall>j\<in>LFU_tracked p. LFU_le p v j) \<and>
                frequencyMap p' = AList.delete v (frequencyMap p) \<and>
                keyOrder p' = AList.delete v (keyOrder p) \<and>
                LFU_tracked p' = LFU_tracked p - {v}))"
proof (intro conjI impI)
  assume "int_at (frequencyMap p) k \<noteq> INT_MAX \<and> currentTime p \<noteq> INT_MAX"
  then obtain p' where p': "LFU_access k p = Inr p'"
      "LFU_tracked p' = insert k (LFU_tracked p)"
      "frequencyMap p' = AList.update k (int_at (frequencyMap p) k + 1) (frequencyMap p)"
      "keyOrder p' = AList.update k (currentTime p) (keyOrder p)"
      "currentTime p' = currentTime p + 1"
    using LFU_access_ok [OF inv, of k] by blast
  show "\<exists>p'. LFU_access k p = Inr p' \<and>
          int_at (frequencyMap p') k = int_at (frequencyMap p) k + 1 \<and>
          (k \<notin> LFU_tracked p \<longrightarrow> int_at (frequencyMap p') k = 1) \<and>
          int_at (keyOrder p') k = currentTime p \<and>
          currentTime p' = currentTime p + 1 \<and>
          (\<forall>j. j \<noteq> k \<longrightarrow>
              int_at (frequencyMap p') j = int_at (frequencyMap p) j \<and>
              int_at (keyOrder p') j = int_at (keyOrder p) j) \<and>
          LFU_tracked p' = insert k (LFU_tracked p)"
  proof (intro exI conjI)
    show "LFU_access k p = Inr p'" by (rule p'(1))
    show "int_at (frequencyMap p') k = int_at (frequencyMap p) k + 1"
      by (simp add: p'(3) int_at_update)
    show "k \<notin> LFU_tracked p \<longrightarrow> int_at (frequencyMap p') k = 1"
      by (simp add: p'(3) int_at_update int_at_absent LFU_tracked_def)
    show "int_at (keyOrder p') k = currentTime p"
      by (simp add: p'(4) int_at_update)
    show "currentTime p' = currentTime p + 1" by (rule p'(5))
    show "\<forall>j. j \<noteq> k \<longrightarrow>
            int_at (frequencyMap p') j = int_at (frequencyMap p) j \<and>
            int_at (keyOrder p') j = int_at (keyOrder p) j"
      by (simp add: p'(3,4) int_at_update)
    show "LFU_tracked p' = insert k (LFU_tracked p)" by (rule p'(2))
  qed
next
  assume ne: "LFU_tracked p \<noteq> {}"
  then have fm: "frequencyMap p \<noteq> []"
    by (auto simp: LFU_tracked_def)
  obtain v p' where ev: "LFU_evict p = (v, p')"
    by (cases "LFU_evict p")
  note a = LFU_evict_min [OF inv fm ev] and b = LFU_evict_inv [OF inv ev]
  show "\<exists>v p'. LFU_evict p = (v, p') \<and> v \<in> LFU_tracked p \<and>
          (\<forall>j\<in>LFU_tracked p. LFU_le p v j) \<and>
          frequencyMap p' = AList.delete v (frequencyMap p) \<and>
          keyOrder p' = AList.delete v (keyOrder p) \<and>
          LFU_tracked p' = LFU_tracked p - {v}"
  proof (intro exI conjI)
    show "LFU_evict p = (v, p')" by (rule ev)
    show "v \<in> LFU_tracked p" using a by simp
    show "\<forall>j\<in>LFU_tracked p. LFU_le p v j" using a by simp
    show "frequencyMap p' = AList.delete v (frequencyMap p)" using b by simp
    show "keyOrder p' = AList.delete v (keyOrder p)" using b by simp
    show "LFU_tracked p' = LFU_tracked p - {v}" using b by simp
  qed
qed

lemmas LFU_test_defs = LFU_new_def LFU_access_def LFU_evict_def int_at_def INT_MAX_def
  LFU_tracked_def LFU_inv_def LFU_le_def

theorem LFU_counts_accesses_and_evicts_least_frequent_witness:
  "LFU_inv \<lparr>frequencyMap = [(''B'', 1), (''A'', 1)], keyOrder = [(''A'', 0), (''B'', 1)],
            currentTime = 2\<rparr> \<and>
   LFU_evict \<lparr>frequencyMap = [(''B'', 1), (''A'', 1)], keyOrder = [(''A'', 0), (''B'', 1)],
              currentTime = 2\<rparr> =
     (''A'', \<lparr>frequencyMap = [(''B'', 1)], keyOrder = [(''B'', 1)], currentTime = 2\<rparr>) \<and>
   LFU_le \<lparr>frequencyMap = [(''B'', 1), (''A'', 1)], keyOrder = [(''A'', 0), (''B'', 1)],
            currentTime = 2\<rparr> ''A'' ''B'' \<and>
   LFU_access ''B'' \<lparr>frequencyMap = [(''B'', 1), (''A'', 1)], keyOrder = [(''A'', 0), (''B'', 1)],
            currentTime = 2\<rparr> =
     Inr \<lparr>frequencyMap = [(''B'', 2), (''A'', 1)], keyOrder = [(''A'', 0), (''B'', 2)],
            currentTime = 3\<rparr>"
proof -
  let ?p = "\<lparr>frequencyMap = [(''B'', 1), (''A'', 1)], keyOrder = [(''A'', 0), (''B'', 1)],
            currentTime = 2\<rparr>"
  have inv: "LFU_inv ?p"
    by (simp add: LFU_test_defs insert_commute)
  have ev: "LFU_evict ?p =
      (''A'', \<lparr>frequencyMap = [(''B'', 1)], keyOrder = [(''B'', 1)], currentTime = 2\<rparr>)"
    by (simp add: LFU_test_defs)
  have acc: "LFU_access ''B'' ?p =
      Inr \<lparr>frequencyMap = [(''B'', 2), (''A'', 1)], keyOrder = [(''A'', 0), (''B'', 2)],
            currentTime = 3\<rparr>"
    by (simp add: LFU_test_defs)
  have tr: "LFU_tracked ?p = {''B'', ''A''}"
    by (simp add: LFU_test_defs)
  have ne: "LFU_tracked ?p \<noteq> {}"
    unfolding tr by simp
  from LFU_counts_accesses_and_evicts_least_frequent [OF inv, of "''B''", THEN conjunct2, rule_format, OF ne]
  obtain v p' where v: "LFU_evict ?p = (v, p')" and le: "\<forall>j\<in>LFU_tracked ?p. LFU_le ?p v j"
    by (elim exE conjE) (rule that)
  have "v = ''A''"
    using v ev by simp
  then have "LFU_le ?p ''A'' ''B''"
    using le unfolding tr by simp
  then show ?thesis
    using inv ev acc by (intro conjI)
qed

section \<open>The cache level\<close>

lemma access_ok:
  assumes "policy_inv p" "access k p = Inr p'"
  shows "policy_inv p' \<and> tracked p' = insert k (tracked p)"
proof (cases p)
  case (LRU q)
  then have inv: "LRU_inv q" using assms(1) by simp
  obtain q' where q': "LRU_access k q = Inr q'" "LRU_inv q'"
      "LRU_order q' = removeAll k (LRU_order q) @ [k]"
    using LRU_access_ok [OF inv] by blast
  have p': "p' = LRU q'" using assms(2) LRU q'(1) by simp
  have "LRU_tracked q' = insert k (LRU_tracked q)"
    by (auto simp: LRU_inv_tracked [OF inv] LRU_inv_tracked [OF q'(2)] q'(3))
  then show ?thesis using q'(2) by (simp add: p' LRU)
next
  case (LFU q)
  then have inv: "LFU_inv q" using assms(1) by simp
  have ok: "int_at (frequencyMap q) k \<noteq> INT_MAX" "currentTime q \<noteq> INT_MAX"
    using assms(2) LFU by (auto simp: LFU_access_def split: if_splits)
  obtain q' where q': "LFU_access k q = Inr q'" "LFU_inv q'"
      "LFU_tracked q' = insert k (LFU_tracked q)"
    using LFU_access_ok [OF inv ok] by blast
  have p': "p' = LFU q'" using assms(2) LFU q'(1) by simp
  show ?thesis using q'(2,3) by (simp add: p' LFU)
qed

lemma access_returns:
  assumes "policy_inv p" "access_defined k p"
  shows "\<exists>p'. access k p = Inr p'"
proof (cases p)
  case (LRU q)
  then show ?thesis
    using LRU_access_ok [of q k] assms(1) by auto
next
  case (LFU q)
  then show ?thesis
    using LFU_access_ok [of q k] assms by auto
qed

lemma evict_ok:
  assumes "policy_inv p" "evict p = Inr (v, p')"
  shows "policy_inv p' \<and> tracked p' = tracked p - {v} \<and> (tracked p \<noteq> {} \<longrightarrow> v \<in> tracked p)"
proof (cases p)
  case (LRU q)
  then have inv: "LRU_inv q" using assms(1) by simp
  have ne: "accessOrder q \<noteq> []"
    using assms(2) LRU by (auto simp: LRU_evict_def split: list.splits)
  obtain q' where q': "LRU_evict q = Inr (hd (LRU_order q), q')" "LRU_inv q'"
      "LRU_order q' = tl (LRU_order q)"
    using LRU_evict_ok [OF inv ne] by blast
  have p': "p' = LRU q'" and v: "v = hd (LRU_order q)"
    using assms(2) LRU q'(1) by simp_all
  have ne': "LRU_order q \<noteq> []" using ne by (simp add: LRU_order_def)
  then have "set (tl (LRU_order q)) = set (LRU_order q) - {v}"
    using LRU_inv_distinct [OF inv] unfolding v by (cases "LRU_order q") auto
  then have "LRU_tracked q' = LRU_tracked q - {v}"
    by (simp add: LRU_inv_tracked [OF inv] LRU_inv_tracked [OF q'(2)] q'(3))
  moreover have "v \<in> LRU_tracked q"
    using ne' by (simp add: LRU_inv_tracked [OF inv] v)
  ultimately show ?thesis using q'(2) by (simp add: p' LRU)
next
  case (LFU q)
  then have inv: "LFU_inv q" using assms(1) by simp
  obtain q' where ev: "LFU_evict q = (v, q')" and p': "p' = LFU q'"
    using assms(2) LFU by (auto split: prod.splits)
  note a = LFU_evict_inv [OF inv ev]
  have "v \<in> LFU_tracked q" if "LFU_tracked q \<noteq> {}"
  proof -
    from that have "frequencyMap q \<noteq> []" by (auto simp: LFU_tracked_def)
    from LFU_evict_min [OF inv this ev] show ?thesis by simp
  qed
  then show ?thesis using a by (simp add: p' LFU)
qed

lemma evict_returns:
  assumes "policy_inv p" "tracked p \<noteq> {}"
  shows "\<exists>v p'. evict p = Inr (v, p')"
proof (cases p)
  case (LRU q)
  then have inv: "LRU_inv q" using assms(1) by simp
  have "accessOrder q \<noteq> []"
    using assms(2) LRU by (auto simp: LRU_inv_tracked [OF inv] LRU_order_def)
  from LRU_evict_ok [OF inv this] show ?thesis using LRU by auto
next
  case (LFU q)
  then show ?thesis by (cases "LFU_evict q") simp
qed

lemma evict_access_defined:
  assumes "policy_inv p" "evict p = Inr (v, p')" "access_defined k p"
  shows "access_defined k p'"
proof (cases p)
  case (LRU q)
  then show ?thesis using assms(2) by (auto split: sum.splits)
next
  case (LFU q)
  then have inv: "LFU_inv q" using assms(1) by simp
  obtain q' where ev: "LFU_evict q = (v, q')" and p': "p' = LFU q'"
    using assms(2) LFU by (auto split: prod.splits)
  note a = LFU_evict_inv [OF inv ev]
  have "int_at (frequencyMap q') k \<noteq> INT_MAX"
  proof (cases "k = v")
    case True
    have "k \<notin> fst ` set (AList.delete k (frequencyMap q))"
      by (rule delete_notin_dom)
    then have "int_at (frequencyMap q') k = 0"
      using a True by (simp add: int_at_absent)
    then show ?thesis by (simp add: INT_MAX_def)
  next
    case False
    then show ?thesis using a assms(3) LFU by (simp add: int_at_delete)
  qed
  then show ?thesis using a assms(3) LFU by (simp add: p')
qed

lemma length_update:
  "length (AList.update k v al) = (if k \<in> fst ` set al then length al else Suc (length al))"
  by (induction al) auto

lemma length_delete:
  "distinct (map fst al) \<Longrightarrow> k \<in> fst ` set al \<Longrightarrow> Suc (length (AList.delete k al)) = length al"
  by (induction al) (auto simp: rev_image_eqI)

lemma dom_delete: "fst ` set (AList.delete k al) = fst ` set al - {k}"
  by (induction al) auto

lemma size_t_of_int_le: "0 \<le> n \<Longrightarrow> int (size_t_of_int n) \<le> n"
proof -
  assume "0 \<le> n"
  then have "n mod 2 ^ 64 \<le> n"
    by (rule zmod_le_nonneg_dividend)
  moreover have "0 \<le> n mod 2 ^ 64" by simp
  ultimately show ?thesis by (simp add: size_t_of_int_def)
qed

lemma size_t_of_int_id: "0 \<le> n \<Longrightarrow> n \<le> INT_MAX \<Longrightarrow> size_t_of_int n = nat n"
  by (simp add: size_t_of_int_def INT_MAX_def)

lemma policy_access_Inr:
  "policy_access k lvl = Inr lvl' \<Longrightarrow>
   \<exists>p p'. evictionPolicy lvl = Some p \<and> access k p = Inr p' \<and> lvl' = lvl\<lparr>evictionPolicy := Some p'\<rparr>"
  by (auto simp: policy_access_def split: option.splits sum.splits)

lemma policy_evict_Inr:
  "policy_evict lvl = Inr (v, lvl') \<Longrightarrow>
   \<exists>p p'. evictionPolicy lvl = Some p \<and> evict p = Inr (v, p') \<and> lvl' = lvl\<lparr>evictionPolicy := Some p'\<rparr>"
  by (auto simp: policy_evict_def split: option.splits sum.splits)

lemma CacheLevel_put_full:
  assumes "at_capacity lvl" "CacheLevel_put k v lvl = Inr lvl'"
  shows "\<exists>p victim p1 p2. evictionPolicy lvl = Some p \<and> evict p = Inr (victim, p1) \<and>
           access k p1 = Inr p2 \<and>
           lvl' = lvl\<lparr>data := AList.update k v (AList.delete victim (data lvl)),
                      evictionPolicy := Some p2\<rparr>"
proof -
  from assms obtain victim l1 where ev: "policy_evict lvl = Inr (victim, l1)"
    and acc: "policy_access k (l1\<lparr>data := AList.update k v (AList.delete victim (data l1))\<rparr>) = Inr lvl'"
    by (auto simp: CacheLevel_put_def split: sum.splits)
  from policy_evict_Inr [OF ev] obtain p p1 where p: "evictionPolicy lvl = Some p"
    "evict p = Inr (victim, p1)" "l1 = lvl\<lparr>evictionPolicy := Some p1\<rparr>"
    by blast
  from policy_access_Inr [OF acc] obtain p2 where p2: "access k p1 = Inr p2"
    "lvl' = lvl\<lparr>data := AList.update k v (AList.delete victim (data lvl)),
               evictionPolicy := Some p2\<rparr>"
    by (auto simp: p(3))
  show ?thesis using p(1,2) p2 by blast
qed

lemma CacheLevel_put_room:
  assumes "\<not> at_capacity lvl" "CacheLevel_put k v lvl = Inr lvl'"
  shows "\<exists>p p2. evictionPolicy lvl = Some p \<and> access k p = Inr p2 \<and>
           lvl' = lvl\<lparr>data := AList.update k v (data lvl), evictionPolicy := Some p2\<rparr>"
proof -
  from assms have acc: "policy_access k (lvl\<lparr>data := AList.update k v (data lvl)\<rparr>) = Inr lvl'"
    by (simp add: CacheLevel_put_def)
  from policy_access_Inr [OF acc] show ?thesis by auto
qed

lemma level_inv_policy:
  "level_inv lvl \<Longrightarrow> evictionPolicy lvl = Some p \<Longrightarrow> policy_inv p \<and> tracked p = level_keys lvl"
  by (simp add: level_inv_def in_sync_def level_tracked_def)

lemma level_invI:
  "distinct (map fst (data lvl)) \<Longrightarrow> evictionPolicy lvl = Some p \<Longrightarrow> policy_inv p \<Longrightarrow>
   tracked p = level_keys lvl \<Longrightarrow> level_inv lvl"
  by (simp add: level_inv_def in_sync_def level_tracked_def)

lemma CacheLevel_get_ok:
  assumes inv: "level_inv lvl" and g: "CacheLevel_get k lvl = Inr (r, lvl')"
  shows "level_inv lvl' \<and> data lvl' = data lvl \<and> size_lvl lvl' = size_lvl lvl \<and>
         r = level_value k lvl"
proof (cases "map_of (data lvl) k")
  case None
  then show ?thesis using inv g by (simp add: CacheLevel_get_def level_value_def)
next
  case (Some val)
  then have acc: "policy_access k lvl = Inr lvl'" and r: "r = val"
    using g by (auto simp: CacheLevel_get_def split: sum.splits)
  from policy_access_Inr [OF acc] obtain p p' where p: "evictionPolicy lvl = Some p"
    "access k p = Inr p'" "lvl' = lvl\<lparr>evictionPolicy := Some p'\<rparr>"
    by blast
  note a = level_inv_policy [OF inv p(1)]
  have b: "policy_inv p' \<and> tracked p' = insert k (tracked p)"
    using access_ok [of p k p'] a p(2) by simp
  have "k \<in> level_keys lvl"
    using Some by (force simp: level_keys_def dest: map_of_SomeD)
  then have "tracked p' = level_keys lvl'"
    using a b by (auto simp: p(3) level_keys_def)
  moreover have "distinct (map fst (data lvl'))"
    using inv by (simp add: p(3) level_inv_def)
  moreover have "evictionPolicy lvl' = Some p'" by (simp add: p(3))
  ultimately have "level_inv lvl'"
    using b by (intro level_invI [of lvl' p']) simp_all
  then show ?thesis
    using Some r by (simp add: p(3) level_value_def)
qed

lemma CacheLevel_put_ok:
  assumes inv: "level_inv lvl" and put: "CacheLevel_put k v lvl = Inr lvl'"
  shows "level_inv lvl' \<and> size_lvl lvl' = size_lvl lvl \<and> map_of (data lvl') k = Some v \<and>
         (0 < size_lvl lvl \<and> int (length (data lvl)) \<le> size_lvl lvl \<longrightarrow>
            int (length (data lvl')) \<le> size_lvl lvl)"
proof (cases "at_capacity lvl")
  case True
  from CacheLevel_put_full [OF True put] obtain p victim p1 p2 where
    p: "evictionPolicy lvl = Some p" "evict p = Inr (victim, p1)" "access k p1 = Inr p2"
    and l: "lvl' = lvl\<lparr>data := AList.update k v (AList.delete victim (data lvl)),
                        evictionPolicy := Some p2\<rparr>"
    by blast
  note a = level_inv_policy [OF inv p(1)]
  have d: "distinct (map fst (data lvl))" using inv by (simp add: level_inv_def)
  have b: "policy_inv p1 \<and> tracked p1 = tracked p - {victim} \<and>
           (tracked p \<noteq> {} \<longrightarrow> victim \<in> tracked p)"
    using evict_ok [of p victim p1] a p(2) by simp
  have c: "policy_inv p2 \<and> tracked p2 = insert k (tracked p1)"
    using access_ok [of p1 k p2] b p(3) by simp
  have keys: "level_keys lvl' = insert k (level_keys lvl - {victim})"
    by (simp add: l level_keys_def dom_update dom_delete)
  have "distinct (map fst (data lvl'))"
    using d by (simp add: l distinct_update distinct_delete)
  moreover have "evictionPolicy lvl' = Some p2" by (simp add: l)
  moreover have "tracked p2 = level_keys lvl'"
    using a b c keys by simp
  ultimately have 1: "level_inv lvl'"
    using c by (intro level_invI [of lvl' p2]) simp_all
  have 2: "map_of (data lvl') k = Some v"
    by (simp add: l update_conv')
  have 3: "int (length (data lvl')) \<le> size_lvl lvl"
    if pos: "0 < size_lvl lvl" and le: "int (length (data lvl)) \<le> size_lvl lvl"
  proof (cases "int (length (data lvl)) = size_lvl lvl")
    case True
    then have "data lvl \<noteq> []" using pos by auto
    then have "level_keys lvl \<noteq> {}" by (simp add: level_keys_def)
    then have "victim \<in> fst ` set (data lvl)"
      using a b by (simp add: level_keys_def)
    then have "Suc (length (AList.delete victim (data lvl))) = length (data lvl)"
      using d by (rule length_delete [rotated])
    moreover have "length (data lvl') \<le> Suc (length (AList.delete victim (data lvl)))"
      by (simp add: l length_update)
    ultimately show ?thesis using le by simp
  next
    case False
    have "length (AList.delete victim (data lvl)) \<le> length (data lvl)"
      by (rule length_delete_le)
    moreover have "length (data lvl') \<le> Suc (length (AList.delete victim (data lvl)))"
      by (simp add: l length_update)
    ultimately show ?thesis using le False by simp
  qed
  show ?thesis using 1 2 3 by (simp add: l)
next
  case False
  from CacheLevel_put_room [OF False put] obtain p p2 where
    p: "evictionPolicy lvl = Some p" "access k p = Inr p2"
    and l: "lvl' = lvl\<lparr>data := AList.update k v (data lvl), evictionPolicy := Some p2\<rparr>"
    by blast
  note a = level_inv_policy [OF inv p(1)]
  have d: "distinct (map fst (data lvl))" using inv by (simp add: level_inv_def)
  have c: "policy_inv p2 \<and> tracked p2 = insert k (tracked p)"
    using access_ok [of p k p2] a p(2) by simp
  have keys: "level_keys lvl' = insert k (level_keys lvl)"
    by (simp add: l level_keys_def dom_update)
  have "distinct (map fst (data lvl'))"
    using d by (simp add: l distinct_update)
  moreover have "evictionPolicy lvl' = Some p2" by (simp add: l)
  moreover have "tracked p2 = level_keys lvl'"
    using a c keys by simp
  ultimately have 1: "level_inv lvl'"
    using c by (intro level_invI [of lvl' p2]) simp_all
  have 2: "map_of (data lvl') k = Some v"
    by (simp add: l update_conv')
  have 3: "int (length (data lvl')) \<le> size_lvl lvl" if pos: "0 < size_lvl lvl"
  proof -
    have "int (size_t_of_int (size_lvl lvl)) \<le> size_lvl lvl"
      using pos by (intro size_t_of_int_le) simp
    moreover have "length (data lvl) < size_t_of_int (size_lvl lvl)"
      using False by (simp add: at_capacity_def)
    moreover have "length (data lvl') \<le> Suc (length (data lvl))"
      by (simp add: l length_update)
    ultimately show ?thesis by simp
  qed
  show ?thesis using 1 2 3 by (simp add: l)
qed

lemma CacheLevel_put_returns:
  assumes inv: "level_inv lvl" and p: "evictionPolicy lvl = Some p"
    and def: "access_defined k p" and ne: "at_capacity lvl \<longrightarrow> data lvl \<noteq> []"
  shows "\<exists>lvl'. CacheLevel_put k v lvl = Inr lvl'"
proof (cases "at_capacity lvl")
  case True
  note a = level_inv_policy [OF inv p]
  have "tracked p \<noteq> {}"
    using a True ne by (simp add: level_keys_def)
  then obtain victim p1 where ev: "evict p = Inr (victim, p1)"
    using evict_returns [of p] a by blast
  have "policy_inv p1" using evict_ok [OF _ ev] a by simp
  moreover have "access_defined k p1"
    using evict_access_defined [OF _ ev def] a by simp
  ultimately obtain p2 where "access k p1 = Inr p2"
    using access_returns by blast
  then show ?thesis
    using True p ev by (simp add: CacheLevel_put_def policy_evict_def policy_access_def)
next
  case False
  note a = level_inv_policy [OF inv p]
  obtain p2 where "access k p = Inr p2"
    using access_returns [of p k] a def by blast
  then show ?thesis
    using False p by (simp add: CacheLevel_put_def policy_access_def)
qed

lemma at_capacity_nonempty:
  "0 < size_lvl lvl \<Longrightarrow> size_lvl lvl \<le> INT_MAX \<Longrightarrow> at_capacity lvl \<Longrightarrow> data lvl \<noteq> []"
  by (auto simp: at_capacity_def size_t_of_int_id)

lemmas level_test_defs = CacheLevel_new_def CacheLevel_put_def CacheLevel_get_def
  CacheLevel_update_def CacheLevel_contains_def policy_access_def policy_evict_def
  at_capacity_def size_t_of_int_def level_keys_def level_tracked_def in_sync_def level_inv_def

lemma level_inv_new:
  "policy = None \<or> policy = Some (LRU LRU_new) \<or> policy = Some (LFU LFU_new) \<Longrightarrow>
   level_inv (CacheLevel_new n policy)"
  by (auto simp: level_test_defs LRU_test_defs LFU_test_defs)

lemma CacheLevel_update_present:
  assumes "level_inv lvl" "CacheLevel_contains k lvl"
  shows "level_inv (CacheLevel_update k v lvl)"
proof -
  have "k \<in> fst ` set (data lvl)"
    using assms(2) by (simp add: CacheLevel_contains_def map_of_eq_None_iff)
  then have "fst ` set (AList.update k v (data lvl)) = fst ` set (data lvl)"
    by (auto simp: dom_update)
  then show ?thesis
    using assms(1)
    by (simp add: level_inv_def in_sync_def level_tracked_def level_keys_def
        CacheLevel_update_def distinct_update)
qed

lemma apply_op_inv:
  assumes "level_inv lvl" "apply_op x lvl = Inr lvl'"
    and "case x of Update k v \<Rightarrow> CacheLevel_contains k lvl | _ \<Rightarrow> True"
  shows "level_inv lvl'"
proof (cases x)
  case (Get k)
  then obtain r where "CacheLevel_get k lvl = Inr (r, lvl')"
    using assms(2) by (auto split: sum.splits)
  from CacheLevel_get_ok [OF assms(1) this] show ?thesis by simp
next
  case (Put k v)
  then have "CacheLevel_put k v lvl = Inr lvl'" using assms(2) by simp
  from CacheLevel_put_ok [OF assms(1) this] show ?thesis by simp
next
  case (Update k v)
  then show ?thesis
    using assms CacheLevel_update_present [of lvl k v] by simp
qed

lemma run_ops_inv:
  "level_inv lvl0 \<Longrightarrow> updates_present ops lvl0 \<Longrightarrow> run_ops ops lvl0 = Inr lvl \<Longrightarrow>
   level_inv lvl"
proof (induction ops arbitrary: lvl0)
  case Nil
  then show ?case by simp
next
  case (Cons x xs)
  from Cons.prems(3) obtain l1 where l1: "apply_op x lvl0 = Inr l1" "run_ops xs l1 = Inr lvl"
    by (auto split: sum.splits)
  have pres: "case x of Update k v \<Rightarrow> CacheLevel_contains k lvl0 | _ \<Rightarrow> True"
    and rest: "updates_present xs l1"
    using Cons.prems(2) l1(1) by simp_all
  have "level_inv l1"
    using apply_op_inv [OF Cons.prems(1) l1(1) pres] .
  from Cons.IH [OF this rest l1(2)] show ?case .
qed

text \<open>
  C3, amended. Take a level whose mapping has one entry per key and whose policy
  is well formed and tracks exactly the keys of the mapping, with a positive
  capacity and no more keys than the capacity. Every \<^verbatim>\<open>put\<close> that returns leaves
  the capacity as it is and no more keys than the capacity; and \<^verbatim>\<open>put\<close> returns
  when the level has a policy, the capacity is an \<^verbatim>\<open>int\<close> and the increments of
  \<^verbatim>\<open>access\<close> do not overflow.
\<close>

theorem put_keeps_level_within_capacity:
  assumes "level_inv lvl" "0 < size_lvl lvl" "int (length (data lvl)) \<le> size_lvl lvl"
  shows "(\<forall>lvl'. CacheLevel_put k v lvl = Inr lvl' \<longrightarrow>
            size_lvl lvl' = size_lvl lvl \<and> int (length (data lvl')) \<le> size_lvl lvl') \<and>
         (\<forall>p. evictionPolicy lvl = Some p \<and> access_defined k p \<and> size_lvl lvl \<le> INT_MAX \<longrightarrow>
            (\<exists>lvl'. CacheLevel_put k v lvl = Inr lvl'))"
proof (intro conjI allI impI)
  fix lvl' assume put: "CacheLevel_put k v lvl = Inr lvl'"
  from CacheLevel_put_ok [OF assms(1) put] assms(2,3)
  show "size_lvl lvl' = size_lvl lvl" and "int (length (data lvl')) \<le> size_lvl lvl'"
    by simp_all
next
  fix p assume p: "evictionPolicy lvl = Some p \<and> access_defined k p \<and> size_lvl lvl \<le> INT_MAX"
  then have "at_capacity lvl \<longrightarrow> data lvl \<noteq> []"
    using at_capacity_nonempty [of lvl] assms(2) by blast
  then show "\<exists>lvl'. CacheLevel_put k v lvl = Inr lvl'"
    using CacheLevel_put_returns [OF assms(1), of p k v] p by blast
qed

theorem put_keeps_level_within_capacity_witness:
  "level_inv \<lparr>size_lvl = 1, data = [(''A'', ''1'')],
      evictionPolicy = Some (LFU \<lparr>frequencyMap = [(''A'', 1)], keyOrder = [(''A'', 0)],
                                  currentTime = 1\<rparr>)\<rparr> \<and>
   CacheLevel_put ''B'' ''2'' \<lparr>size_lvl = 1, data = [(''A'', ''1'')],
      evictionPolicy = Some (LFU \<lparr>frequencyMap = [(''A'', 1)], keyOrder = [(''A'', 0)],
                                  currentTime = 1\<rparr>)\<rparr> =
     Inr \<lparr>size_lvl = 1, data = [(''B'', ''2'')],
      evictionPolicy = Some (LFU \<lparr>frequencyMap = [(''B'', 1)], keyOrder = [(''B'', 1)],
                                  currentTime = 2\<rparr>)\<rparr> \<and>
   int (length (data \<lparr>size_lvl = 1, data = [(''B'', ''2'')],
      evictionPolicy = Some (LFU \<lparr>frequencyMap = [(''B'', 1)], keyOrder = [(''B'', 1)],
                                  currentTime = 2\<rparr>)\<rparr>)) \<le> 1"
proof -
  let ?l = "\<lparr>size_lvl = 1, data = [(''A'', ''1'')],
      evictionPolicy = Some (LFU \<lparr>frequencyMap = [(''A'', 1)], keyOrder = [(''A'', 0)],
                                  currentTime = 1\<rparr>)\<rparr>"
  let ?l' = "\<lparr>size_lvl = 1, data = [(''B'', ''2'')],
      evictionPolicy = Some (LFU \<lparr>frequencyMap = [(''B'', 1)], keyOrder = [(''B'', 1)],
                                  currentTime = 2\<rparr>)\<rparr>"
  have inv: "level_inv ?l"
    by (simp add: level_test_defs LFU_test_defs)
  have put: "CacheLevel_put ''B'' ''2'' ?l = Inr ?l'"
    by (simp add: level_test_defs LFU_test_defs)
  have "0 < size_lvl ?l" and "int (length (data ?l)) \<le> size_lvl ?l"
    by simp_all
  from put_keeps_level_within_capacity [OF inv this, of "''B''" "''2''", THEN conjunct1, rule_format, OF put]
  have "int (length (data ?l')) \<le> 1" by simp
  then show ?thesis using inv put by (intro conjI)
qed

text \<open>
  Without the condition on the policy the bound fails. A new level of capacity 1
  with the frequency policy receives \<^verbatim>\<open>update("A", "1")\<close>: it holds one key, which
  the policy does not track. \<^verbatim>\<open>put("B", "2")\<close> finds the level full, \<^verbatim>\<open>evict\<close>
  scans an empty \<^verbatim>\<open>frequencyMap\<close> and returns the empty string, nothing is erased,
  and the level holds two keys.
\<close>

theorem put_exceeds_capacity_counterexample:
  "0 < size_lvl (CacheLevel_update ''A'' ''1'' (CacheLevel_new 1 (Some (LFU LFU_new)))) \<and>
   int (length (data (CacheLevel_update ''A'' ''1'' (CacheLevel_new 1 (Some (LFU LFU_new))))))
     \<le> size_lvl (CacheLevel_update ''A'' ''1'' (CacheLevel_new 1 (Some (LFU LFU_new)))) \<and>
   CacheLevel_put ''B'' ''2'' (CacheLevel_update ''A'' ''1'' (CacheLevel_new 1 (Some (LFU LFU_new)))) =
     Inr \<lparr>size_lvl = 1, data = [(''A'', ''1''), (''B'', ''2'')],
          evictionPolicy = Some (LFU \<lparr>frequencyMap = [(''B'', 1)], keyOrder = [(''B'', 0)],
                                      currentTime = 1\<rparr>)\<rparr> \<and>
   size_lvl \<lparr>size_lvl = 1, data = [(''A'', ''1''), (''B'', ''2'')],
          evictionPolicy = Some (LFU \<lparr>frequencyMap = [(''B'', 1)], keyOrder = [(''B'', 0)],
                                      currentTime = 1\<rparr>)\<rparr>
     < int (length (data \<lparr>size_lvl = 1, data = [(''A'', ''1''), (''B'', ''2'')],
          evictionPolicy = Some (LFU \<lparr>frequencyMap = [(''B'', 1)], keyOrder = [(''B'', 0)],
                                      currentTime = 1\<rparr>)\<rparr>))"
  by (simp add: level_test_defs LFU_test_defs)

text \<open>
  C6. On a level whose capacity is not negative and whose mapping holds at least
  as many keys as the capacity, every \<^verbatim>\<open>put\<close> that returns has called \<^verbatim>\<open>evict\<close> on
  the level's policy, erased the victim from the mapping, then written
  \<open>key \<mapsto> val\<close> and called \<^verbatim>\<open>access(key)\<close> on the policy \<^verbatim>\<open>evict\<close> left; nothing
  in this depends on \<open>key\<close> being in the mapping before. Afterwards the mapping
  holds \<open>val\<close> for \<open>key\<close> and nothing for a victim other than \<open>key\<close>. The call
  returns on a non-empty level of a well-formed policy in step with the mapping,
  when the increments of \<^verbatim>\<open>access\<close> do not overflow.
\<close>

theorem put_at_capacity_evicts_then_inserts:
  assumes "0 \<le> size_lvl lvl" "size_lvl lvl \<le> int (length (data lvl))"
  shows "(\<forall>lvl'. CacheLevel_put key val lvl = Inr lvl' \<longrightarrow>
            (\<exists>p victim p1 p2.
                evictionPolicy lvl = Some p \<and> evict p = Inr (victim, p1) \<and>
                access key p1 = Inr p2 \<and>
                data lvl' = AList.update key val (AList.delete victim (data lvl)) \<and>
                evictionPolicy lvl' = Some p2 \<and> size_lvl lvl' = size_lvl lvl \<and>
                map_of (data lvl') key = Some val \<and>
                (victim \<noteq> key \<longrightarrow> map_of (data lvl') victim = None))) \<and>
         (\<forall>p. level_inv lvl \<and> evictionPolicy lvl = Some p \<and> access_defined key p \<and>
               data lvl \<noteq> [] \<longrightarrow>
            (\<exists>lvl'. CacheLevel_put key val lvl = Inr lvl'))"
proof (intro conjI allI impI)
  fix lvl' assume put: "CacheLevel_put key val lvl = Inr lvl'"
  have "int (size_t_of_int (size_lvl lvl)) \<le> size_lvl lvl"
    using assms(1) by (rule size_t_of_int_le)
  then have cap: "at_capacity lvl"
    using assms(2) by (simp add: at_capacity_def)
  from CacheLevel_put_full [OF cap put] obtain p victim p1 p2 where
    p: "evictionPolicy lvl = Some p" "evict p = Inr (victim, p1)" "access key p1 = Inr p2"
    and l: "lvl' = lvl\<lparr>data := AList.update key val (AList.delete victim (data lvl)),
                        evictionPolicy := Some p2\<rparr>"
    by blast
  show "\<exists>p victim p1 p2.
          evictionPolicy lvl = Some p \<and> evict p = Inr (victim, p1) \<and>
          access key p1 = Inr p2 \<and>
          data lvl' = AList.update key val (AList.delete victim (data lvl)) \<and>
          evictionPolicy lvl' = Some p2 \<and> size_lvl lvl' = size_lvl lvl \<and>
          map_of (data lvl') key = Some val \<and>
          (victim \<noteq> key \<longrightarrow> map_of (data lvl') victim = None)"
  proof (intro exI conjI)
    show "evictionPolicy lvl = Some p" by (rule p(1))
    show "evict p = Inr (victim, p1)" by (rule p(2))
    show "access key p1 = Inr p2" by (rule p(3))
    show "data lvl' = AList.update key val (AList.delete victim (data lvl))" by (simp add: l)
    show "evictionPolicy lvl' = Some p2" by (simp add: l)
    show "size_lvl lvl' = size_lvl lvl" by (simp add: l)
    show "map_of (data lvl') key = Some val" by (simp add: l update_conv')
    show "victim \<noteq> key \<longrightarrow> map_of (data lvl') victim = None"
      by (simp add: l update_conv' delete_conv')
  qed
next
  fix p assume "level_inv lvl \<and> evictionPolicy lvl = Some p \<and> access_defined key p \<and>
    data lvl \<noteq> []"
  then show "\<exists>lvl'. CacheLevel_put key val lvl = Inr lvl'"
    using CacheLevel_put_returns [of lvl p key val] by blast
qed

theorem put_at_capacity_evicts_then_inserts_witness:
  "CacheLevel_put ''B'' ''9''
     \<lparr>size_lvl = 2, data = [(''A'', ''1''), (''B'', ''2'')],
      evictionPolicy = Some (LRU \<lparr>accessOrder = [(1, ''A''), (2, ''B'')],
                                  cacheMap = [(''A'', 1), (''B'', 2)]\<rparr>)\<rparr> =
     Inr \<lparr>size_lvl = 2, data = [(''B'', ''9'')],
          evictionPolicy = Some (LRU \<lparr>accessOrder = [(1, ''B'')], cacheMap = [(''B'', 1)]\<rparr>)\<rparr> \<and>
   evict (LRU \<lparr>accessOrder = [(1, ''A''), (2, ''B'')], cacheMap = [(''A'', 1), (''B'', 2)]\<rparr>) =
     Inr (''A'', LRU \<lparr>accessOrder = [(2, ''B'')], cacheMap = [(''B'', 2)]\<rparr>) \<and>
   map_of (data \<lparr>size_lvl = 2, data = [(''B'', ''9'')],
          evictionPolicy = Some (LRU \<lparr>accessOrder = [(1, ''B'')], cacheMap = [(''B'', 1)]\<rparr>)\<rparr>)
     ''A'' = None"
proof -
  let ?p = "LRU \<lparr>accessOrder = [(1, ''A''), (2, ''B'')], cacheMap = [(''A'', 1), (''B'', 2)]\<rparr>"
  let ?l = "\<lparr>size_lvl = 2, data = [(''A'', ''1''), (''B'', ''2'')], evictionPolicy = Some ?p\<rparr>"
  let ?l' = "\<lparr>size_lvl = 2, data = [(''B'', ''9'')],
          evictionPolicy = Some (LRU \<lparr>accessOrder = [(1, ''B'')], cacheMap = [(''B'', 1)]\<rparr>)\<rparr>"
  have put: "CacheLevel_put ''B'' ''9'' ?l = Inr ?l'"
    by (simp add: level_test_defs LRU_test_defs)
  have ev: "evict ?p = Inr (''A'', LRU \<lparr>accessOrder = [(2, ''B'')], cacheMap = [(''B'', 2)]\<rparr>)"
    by (simp add: LRU_test_defs)
  have "0 \<le> size_lvl ?l" and "size_lvl ?l \<le> int (length (data ?l))"
    by simp_all
  from put_at_capacity_evicts_then_inserts [OF this, of "''B''" "''9''", THEN conjunct1, rule_format, OF put]
  obtain p victim p1 where "evictionPolicy ?l = Some p" "evict p = Inr (victim, p1)"
    "victim \<noteq> ''B'' \<longrightarrow> map_of (data ?l') victim = None"
    by (elim exE conjE) (rule that)
  then have "map_of (data ?l') ''A'' = None"
    using ev by simp
  then show ?thesis using put ev by (intro conjI)
qed

text \<open>
  C7, amended. Start from a new level (with a new recency policy, a new frequency
  policy, or none) and run \<^verbatim>\<open>get\<close>, \<^verbatim>\<open>put\<close> and \<^verbatim>\<open>update\<close> calls, where every
  \<^verbatim>\<open>update\<close> writes a key that the mapping holds at that moment. When the run
  completes, the policy tracks exactly the keys of the mapping.
\<close>

theorem get_and_put_keep_policy_in_sync:
  assumes "policy = None \<or> policy = Some (LRU LRU_new) \<or> policy = Some (LFU LFU_new)"
    and "updates_present ops (CacheLevel_new n policy)"
    and "run_ops ops (CacheLevel_new n policy) = Inr lvl"
  shows "level_tracked lvl = level_keys lvl"
proof -
  have "level_inv (CacheLevel_new n policy)"
    using assms(1) by (rule level_inv_new)
  from run_ops_inv [OF this assms(2,3)] show ?thesis
    by (simp add: level_inv_def in_sync_def)
qed

theorem get_and_put_keep_policy_in_sync_witness:
  "updates_present [Put ''A'' ''1'', Put ''B'' ''2'', Update ''A'' ''3'', Get ''A'', Put ''C'' ''4'']
     (CacheLevel_new 2 (Some (LRU LRU_new))) \<and>
   run_ops [Put ''A'' ''1'', Put ''B'' ''2'', Update ''A'' ''3'', Get ''A'', Put ''C'' ''4'']
     (CacheLevel_new 2 (Some (LRU LRU_new))) =
     Inr \<lparr>size_lvl = 2, data = [(''A'', ''3''), (''C'', ''4'')],
          evictionPolicy = Some (LRU \<lparr>accessOrder = [(3, ''A''), (4, ''C'')],
                                      cacheMap = [(''A'', 3), (''C'', 4)]\<rparr>)\<rparr> \<and>
   level_tracked \<lparr>size_lvl = 2, data = [(''A'', ''3''), (''C'', ''4'')],
          evictionPolicy = Some (LRU \<lparr>accessOrder = [(3, ''A''), (4, ''C'')],
                                      cacheMap = [(''A'', 3), (''C'', 4)]\<rparr>)\<rparr> =
   level_keys \<lparr>size_lvl = 2, data = [(''A'', ''3''), (''C'', ''4'')],
          evictionPolicy = Some (LRU \<lparr>accessOrder = [(3, ''A''), (4, ''C'')],
                                      cacheMap = [(''A'', 3), (''C'', 4)]\<rparr>)\<rparr>"
proof -
  let ?ops = "[Put ''A'' ''1'', Put ''B'' ''2'', Update ''A'' ''3'', Get ''A'', Put ''C'' ''4'']"
  let ?start = "CacheLevel_new 2 (Some (LRU LRU_new))"
  let ?l = "\<lparr>size_lvl = 2, data = [(''A'', ''3''), (''C'', ''4'')],
          evictionPolicy = Some (LRU \<lparr>accessOrder = [(3, ''A''), (4, ''C'')],
                                      cacheMap = [(''A'', 3), (''C'', 4)]\<rparr>)\<rparr>"
  have up: "updates_present ?ops ?start"
    by (simp add: level_test_defs LRU_test_defs)
  have run: "run_ops ?ops ?start = Inr ?l"
    by (simp add: level_test_defs LRU_test_defs)
  have "Some (LRU LRU_new) = None \<or> Some (LRU LRU_new) = Some (LRU LRU_new) \<or>
        Some (LRU LRU_new) = Some (LFU LFU_new)"
    by simp
  from get_and_put_keep_policy_in_sync [OF this up run]
  show ?thesis using up run by (intro conjI)
qed

text \<open>
  An \<^verbatim>\<open>update\<close> of a key the mapping does not hold adds the key to the mapping and
  not to the policy: after \<^verbatim>\<open>update("A", "1")\<close> on a new level the mapping holds
  \<open>A\<close> and the policy tracks nothing.
\<close>

theorem update_leaves_policy_behind_counterexample:
  "run_ops [Update ''A'' ''1''] (CacheLevel_new 2 (Some (LRU LRU_new))) =
     Inr \<lparr>size_lvl = 2, data = [(''A'', ''1'')], evictionPolicy = Some (LRU LRU_new)\<rparr> \<and>
   level_tracked \<lparr>size_lvl = 2, data = [(''A'', ''1'')], evictionPolicy = Some (LRU LRU_new)\<rparr> \<noteq>
   level_keys \<lparr>size_lvl = 2, data = [(''A'', ''1'')], evictionPolicy = Some (LRU LRU_new)\<rparr>"
  by (simp add: level_test_defs LRU_test_defs)

section \<open>The multilevel system\<close>

declare get_scan.simps [simp del]

lemmas system_test_defs = MCS_new_def MCS_get_def MCS_put_def addCacheLevel_def
  removeCacheLevel_def get_scan.simps level_value_def

lemma length_promote: "length (promote key val h ls) = length ls"
  by (induction h arbitrary: ls) simp_all

lemma promote_nth:
  "j < length ls \<Longrightarrow>
   promote key val h ls ! j = (if j < h then CacheLevel_update key val (ls ! j) else ls ! j)"
proof (induction h arbitrary: ls)
  case 0
  then show ?case by simp
next
  case (Suc h)
  let ?ls = "ls[h := CacheLevel_update key val (ls ! h)]"
  have "j < length ?ls" using Suc.prems by simp
  from Suc.IH [OF this] show ?case
    using Suc.prems by (auto simp: nth_list_update less_Suc_eq)
qed

lemma get_scan_step:
  assumes "i < length levels" "CacheLevel_get key (levels ! i) = Inr (val, lvl)"
  shows "get_scan key i levels =
           (if val \<noteq> [] then Inr (val, promote key val i (levels[i := lvl]))
            else get_scan key (Suc i) (levels[i := lvl]))"
  using assms by (subst get_scan.simps) simp

lemma get_scan_end: "length levels \<le> i \<Longrightarrow> get_scan key i levels = Inr ([], levels)"
  by (subst get_scan.simps) simp

lemma get_scan_error:
  "i < length levels \<Longrightarrow> CacheLevel_get key (levels ! i) = Inl e \<Longrightarrow>
   get_scan key i levels = Inl e"
  by (subst get_scan.simps) simp

lemma get_scan_Inr:
  "get_scan key i levels = Inr (r, levels') \<Longrightarrow>
   length levels' = length levels \<and>
   (r = [] \<longrightarrow>
      (\<forall>j. i \<le> j \<and> j < length levels \<longrightarrow>
           CacheLevel_get key (levels ! j) = Inr ([], levels' ! j)) \<and>
      (\<forall>j<i. j < length levels \<longrightarrow> levels' ! j = levels ! j)) \<and>
   (r \<noteq> [] \<longrightarrow>
      (\<exists>h. i \<le> h \<and> h < length levels \<and>
           CacheLevel_get key (levels ! h) = Inr (r, levels' ! h) \<and>
           (\<forall>j. i \<le> j \<and> j < h \<longrightarrow>
                (\<exists>l. CacheLevel_get key (levels ! j) = Inr ([], l) \<and>
                     levels' ! j = CacheLevel_update key r l)) \<and>
           (\<forall>j<i. j < length levels \<longrightarrow> levels' ! j = CacheLevel_update key r (levels ! j)) \<and>
           (\<forall>j. h < j \<and> j < length levels \<longrightarrow> levels' ! j = levels ! j)))"
proof (induction key i levels arbitrary: r levels' rule: get_scan.induct)
  case (1 key i levels)
  show ?case
  proof (cases "i < length levels")
    case False
    then have "get_scan key i levels = Inr ([], levels)"
      by (simp add: get_scan_end)
    with "1.prems" have "r = []" "levels' = levels" by simp_all
    with False show ?thesis by auto
  next
    case True
    show ?thesis
    proof (cases "CacheLevel_get key (levels ! i)")
      case (Inl e)
      with True "1.prems" show ?thesis by (simp add: get_scan_error)
    next
      case (Inr x)
      obtain val lvl where x: "x = (val, lvl)" by (cases x)
      have g: "CacheLevel_get key (levels ! i) = Inr (val, lvl)"
        using Inr x by simp
      note step = get_scan_step [OF True g]
      show ?thesis
      proof (cases "val = []")
        case False
        then have r: "r = val" and l': "levels' = promote key val i (levels[i := lvl])"
          using step "1.prems" by simp_all
        have nth: "levels' ! j =
            (if j < i then CacheLevel_update key val (levels ! j)
             else if j = i then lvl else levels ! j)" if "j < length levels" for j
          using that by (simp add: l' promote_nth nth_list_update)
        have len: "length levels' = length levels"
          by (simp add: l' length_promote)
        have "i \<le> i \<and> i < length levels \<and>
           CacheLevel_get key (levels ! i) = Inr (r, levels' ! i) \<and>
           (\<forall>j. i \<le> j \<and> j < i \<longrightarrow>
                (\<exists>l. CacheLevel_get key (levels ! j) = Inr ([], l) \<and>
                     levels' ! j = CacheLevel_update key r l)) \<and>
           (\<forall>j<i. j < length levels \<longrightarrow> levels' ! j = CacheLevel_update key r (levels ! j)) \<and>
           (\<forall>j. i < j \<and> j < length levels \<longrightarrow> levels' ! j = levels ! j)"
          using True g by (auto simp: nth r)
        then show ?thesis
          using False len r by blast
      next
        case empty: True
        then have rec: "get_scan key (Suc i) (levels[i := lvl]) = Inr (r, levels')"
          using step "1.prems" by simp
        have "\<not> val \<noteq> []" using empty by simp
        note IH = "1.IH" [OF True Inr x [symmetric] this rec]
        let ?ls = "levels[i := lvl]"
        have same: "?ls ! j = levels ! j" if "j \<noteq> i" for j
          using that by simp
        have at_i: "?ls ! i = lvl" using True by simp
        have len: "length levels' = length levels" using IH by simp
        have g0: "CacheLevel_get key (levels ! i) = Inr ([], lvl)"
          using g empty by simp
        have A: "(\<forall>j. i \<le> j \<and> j < length levels \<longrightarrow>
                   CacheLevel_get key (levels ! j) = Inr ([], levels' ! j)) \<and>
                 (\<forall>j<i. j < length levels \<longrightarrow> levels' ! j = levels ! j)" if r: "r = []"
        proof (intro conjI allI impI)
          fix j assume j: "i \<le> j \<and> j < length levels"
          show "CacheLevel_get key (levels ! j) = Inr ([], levels' ! j)"
          proof (cases "j = i")
            case True
            have "levels' ! i = ?ls ! i"
              using IH r \<open>i < length levels\<close> by simp
            then show ?thesis using g0 at_i True by simp
          next
            case False
            then have "Suc i \<le> j \<and> j < length ?ls" using j by simp
            then have "CacheLevel_get key (?ls ! j) = Inr ([], levels' ! j)"
              using IH r by blast
            then show ?thesis using False by simp
          qed
        next
          fix j assume j: "j < i" "j < length levels"
          then have "j < Suc i" "j < length ?ls" by simp_all
          then have "levels' ! j = ?ls ! j" using IH r by blast
          then show "levels' ! j = levels ! j" using j by simp
        qed
        have B: "\<exists>h. i \<le> h \<and> h < length levels \<and>
           CacheLevel_get key (levels ! h) = Inr (r, levels' ! h) \<and>
           (\<forall>j. i \<le> j \<and> j < h \<longrightarrow>
                (\<exists>l. CacheLevel_get key (levels ! j) = Inr ([], l) \<and>
                     levels' ! j = CacheLevel_update key r l)) \<and>
           (\<forall>j<i. j < length levels \<longrightarrow> levels' ! j = CacheLevel_update key r (levels ! j)) \<and>
           (\<forall>j. h < j \<and> j < length levels \<longrightarrow> levels' ! j = levels ! j)" if r: "r \<noteq> []"
        proof -
          from IH r obtain h where h: "Suc i \<le> h" "h < length ?ls"
            "CacheLevel_get key (?ls ! h) = Inr (r, levels' ! h)"
            and mid: "\<forall>j. Suc i \<le> j \<and> j < h \<longrightarrow>
                (\<exists>l. CacheLevel_get key (?ls ! j) = Inr ([], l) \<and>
                     levels' ! j = CacheLevel_update key r l)"
            and low: "\<forall>j<Suc i. j < length ?ls \<longrightarrow> levels' ! j = CacheLevel_update key r (?ls ! j)"
            and high: "\<forall>j. h < j \<and> j < length ?ls \<longrightarrow> levels' ! j = ?ls ! j"
            by blast
          have 1: "CacheLevel_get key (levels ! h) = Inr (r, levels' ! h)"
            using h(1,3) by simp
          have 2: "\<exists>l. CacheLevel_get key (levels ! j) = Inr ([], l) \<and>
                     levels' ! j = CacheLevel_update key r l" if j: "i \<le> j \<and> j < h" for j
          proof (cases "j = i")
            case True
            have "levels' ! i = CacheLevel_update key r (?ls ! i)"
              using low \<open>i < length levels\<close> by simp
            then show ?thesis using g0 at_i True by simp
          next
            case False
            then have "Suc i \<le> j \<and> j < h" using j by simp
            with mid obtain l where "CacheLevel_get key (?ls ! j) = Inr ([], l)"
              "levels' ! j = CacheLevel_update key r l" by blast
            then show ?thesis using False by simp
          qed
          have 3: "levels' ! j = CacheLevel_update key r (levels ! j)"
            if j: "j < i" "j < length levels" for j
          proof -
            have "levels' ! j = CacheLevel_update key r (?ls ! j)"
              using low j by simp
            then show ?thesis using j by simp
          qed
          have 4: "levels' ! j = levels ! j" if j: "h < j \<and> j < length levels" for j
          proof -
            have "levels' ! j = ?ls ! j" using high j by simp
            then show ?thesis using j h(1) by simp
          qed
          have "i \<le> h" "h < length levels" using h(1,2) by simp_all
          then show ?thesis using 1 2 3 4 by blast
        qed
        show ?thesis using len A B by blast
      qed
    qed
  qed
qed

lemma CacheLevel_get_value:
  "CacheLevel_get k lvl = Inr (r, lvl') \<Longrightarrow>
   r = level_value k lvl \<and> data lvl' = data lvl \<and> size_lvl lvl' = size_lvl lvl"
  by (auto simp: CacheLevel_get_def level_value_def policy_access_def
      split: option.splits sum.splits)

lemma CacheLevel_get_absent:
  "\<not> CacheLevel_contains k lvl \<Longrightarrow> CacheLevel_get k lvl = Inr ([], lvl)"
  by (simp add: CacheLevel_get_def CacheLevel_contains_def)

lemma level_value_update: "level_value k (CacheLevel_update k v lvl) = v"
  by (simp add: level_value_def CacheLevel_update_def update_conv')

lemma contains_update: "CacheLevel_contains k (CacheLevel_update k v lvl)"
  by (simp add: CacheLevel_contains_def CacheLevel_update_def update_conv')

lemma get_scan_hit:
  assumes "i \<le> h" "h < length levels" "level_value key (levels ! h) \<noteq> []"
    and "\<forall>j. i \<le> j \<and> j < h \<longrightarrow> level_value key (levels ! j) = []"
    and "\<forall>j. i \<le> j \<and> j \<le> h \<longrightarrow> (\<exists>r l. CacheLevel_get key (levels ! j) = Inr (r, l))"
  shows "\<exists>levels'. get_scan key i levels = Inr (level_value key (levels ! h), levels')"
  using assms
proof (induction "h - i" arbitrary: i levels)
  case 0
  then have i: "i = h" by simp
  obtain r l where g: "CacheLevel_get key (levels ! h) = Inr (r, l)"
    using "0.prems"(5) i by blast
  then have r: "r = level_value key (levels ! h)"
    by (simp add: CacheLevel_get_value)
  show ?case
    using get_scan_step [OF "0.prems"(2) g] "0.prems"(3) r by (simp add: i)
next
  case (Suc n)
  then have lt: "i < h" by simp
  then have il: "i < length levels" using Suc.prems(2) by simp
  obtain r l where g: "CacheLevel_get key (levels ! i) = Inr (r, l)"
    using Suc.prems(5) lt by (meson le_refl less_imp_le)
  have "r = level_value key (levels ! i)"
    using g by (simp add: CacheLevel_get_value)
  then have r: "r = []" using Suc.prems(4) lt by simp
  let ?ls = "levels[i := l]"
  have step: "get_scan key i levels = get_scan key (Suc i) ?ls"
    using get_scan_step [OF il g] r by simp
  have same: "?ls ! j = levels ! j" if "Suc i \<le> j" for j
    using that by simp
  have "\<exists>levels'. get_scan key (Suc i) ?ls = Inr (level_value key (?ls ! h), levels')"
  proof (rule Suc.hyps(1))
    show "n = h - Suc i" using Suc.hyps(2) by simp
    show "Suc i \<le> h" using lt by simp
    show "h < length ?ls" using Suc.prems(2) by simp
    show "level_value key (?ls ! h) \<noteq> []"
      using Suc.prems(3) lt by simp
    show "\<forall>j. Suc i \<le> j \<and> j < h \<longrightarrow> level_value key (?ls ! j) = []"
      using Suc.prems(4) by simp
    show "\<forall>j. Suc i \<le> j \<and> j \<le> h \<longrightarrow> (\<exists>r l. CacheLevel_get key (?ls ! j) = Inr (r, l))"
      using Suc.prems(5) by simp
  qed
  then show ?case
    using step lt by simp
qed

lemma MCS_get_Inr:
  "MCS_get key s = Inr (r, s') \<Longrightarrow>
   get_scan key 0 (cacheLevels s) = Inr (r, cacheLevels s') \<and> s' = s\<lparr>cacheLevels := cacheLevels s'\<rparr>"
  by (auto simp: MCS_get_def split: sum.splits)

lemma get_at_front_hit:
  assumes "levels \<noteq> []" "level_value key (levels ! 0) \<noteq> []"
    and "get_scan key 0 levels = Inr (r, levels')"
  shows "r = level_value key (levels ! 0) \<and>
         (\<exists>l. CacheLevel_get key (levels ! 0) = Inr (r, l) \<and> levels' = levels[0 := l])"
proof (cases "CacheLevel_get key (levels ! 0)")
  case (Inl e)
  then show ?thesis using assms(1,3) by (simp add: get_scan_error)
next
  case (Inr x)
  obtain val l where x: "x = (val, l)" by (cases x)
  have g: "CacheLevel_get key (levels ! 0) = Inr (val, l)" using Inr x by simp
  then have val: "val = level_value key (levels ! 0)"
    using CacheLevel_get_value [of key "levels ! 0" val l] by simp
  have "0 < length levels" using assms(1) by simp
  from get_scan_step [OF this g] show ?thesis
    using assms(2,3) val g by simp
qed

text \<open>
  C4. Let level \<open>h\<close> be the first level that stores a non-empty value \<open>v\<close> for
  \<open>key\<close> (this is the hit \<^verbatim>\<open>get\<close> tests for, \<^verbatim>\<open>!value.empty()\<close>), and let the
  \<^verbatim>\<open>get\<close> calls on the levels \<open>0..h\<close> have a defined result. Then \<^verbatim>\<open>get\<close> returns
  \<open>v\<close>. Level \<open>h\<close> is left as its own \<^verbatim>\<open>get\<close> leaves it, the levels after \<open>h\<close> are
  untouched, and every level before \<open>h\<close> is what \<^verbatim>\<open>update(key, v)\<close> makes of the level
  the scan passed: it stores \<open>v\<close> for \<open>key\<close>, its capacity is unchanged, and if it
  did not hold \<open>key\<close> before, its policy is unchanged and its mapping has one key
  more, whatever the capacity. If \<open>h > 0\<close>, a second \<^verbatim>\<open>get\<close> that returns returns
  \<open>v\<close> again and leaves every level after level 0 as it is.
\<close>

theorem get_promotes_first_hit_by_update:
  assumes h: "h < length (cacheLevels s)"
    and hit: "level_value key (cacheLevels s ! h) = v" "v \<noteq> []"
    and miss: "\<forall>j<h. level_value key (cacheLevels s ! j) = []"
    and defined: "\<forall>j\<le>h. \<exists>r l. CacheLevel_get key (cacheLevels s ! j) = Inr (r, l)"
  shows "\<exists>s'. MCS_get key s = Inr (v, s') \<and>
           length (cacheLevels s') = length (cacheLevels s) \<and>
           CacheLevel_get key (cacheLevels s ! h) = Inr (v, cacheLevels s' ! h) \<and>
           (\<forall>j<h. \<exists>l. CacheLevel_get key (cacheLevels s ! j) = Inr ([], l) \<and>
                       cacheLevels s' ! j = CacheLevel_update key v l) \<and>
           (\<forall>j. h < j \<and> j < length (cacheLevels s) \<longrightarrow>
                 cacheLevels s' ! j = cacheLevels s ! j) \<and>
           (\<forall>j<h. level_value key (cacheLevels s' ! j) = v \<and>
                   CacheLevel_contains key (cacheLevels s' ! j) \<and>
                   size_lvl (cacheLevels s' ! j) = size_lvl (cacheLevels s ! j)) \<and>
           (\<forall>j<h. \<not> CacheLevel_contains key (cacheLevels s ! j) \<longrightarrow>
                   evictionPolicy (cacheLevels s' ! j) = evictionPolicy (cacheLevels s ! j) \<and>
                   length (data (cacheLevels s' ! j)) = Suc (length (data (cacheLevels s ! j)))) \<and>
           (0 < h \<longrightarrow>
              (\<forall>r s''. MCS_get key s' = Inr (r, s'') \<longrightarrow>
                  r = v \<and> drop 1 (cacheLevels s'') = drop 1 (cacheLevels s')))"
proof -
  let ?ls = "cacheLevels s"
  have "\<exists>levels'. get_scan key 0 ?ls = Inr (level_value key (?ls ! h), levels')"
    using h hit miss defined by (intro get_scan_hit) simp_all
  then obtain ls' where gs: "get_scan key 0 ?ls = Inr (v, ls')"
    using hit(1) by auto
  let ?s' = "s\<lparr>cacheLevels := ls'\<rparr>"
  have get: "MCS_get key s = Inr (v, ?s')"
    using gs by (simp add: MCS_get_def)
  from get_scan_Inr [OF gs] hit(2) obtain h' where len: "length ls' = length ?ls"
    and h': "h' < length ?ls" "CacheLevel_get key (?ls ! h') = Inr (v, ls' ! h')"
    and mid: "\<forall>j. j < h' \<longrightarrow>
                (\<exists>l. CacheLevel_get key (?ls ! j) = Inr ([], l) \<and>
                     ls' ! j = CacheLevel_update key v l)"
    and high: "\<forall>j. h' < j \<and> j < length ?ls \<longrightarrow> ls' ! j = ?ls ! j"
    by auto
  have "level_value key (?ls ! h') = v"
    using CacheLevel_get_value [OF h'(2)] by simp
  then have 1: "\<not> h' < h" using miss hit(2) by auto
  have 2: "\<not> h < h'"
  proof
    assume "h < h'"
    with mid obtain l where "CacheLevel_get key (?ls ! h) = Inr ([], l)" by blast
    from CacheLevel_get_value [OF this] have "level_value key (?ls ! h) = []" by simp
    with hit show False by simp
  qed
  have eq: "h' = h" using 1 2 by simp
  have low: "\<exists>l. CacheLevel_get key (?ls ! j) = Inr ([], l) \<and>
                  ls' ! j = CacheLevel_update key v l" if "j < h" for j
    using mid that eq by simp
  have A: "level_value key (ls' ! j) = v \<and> CacheLevel_contains key (ls' ! j) \<and>
           size_lvl (ls' ! j) = size_lvl (?ls ! j)" if "j < h" for j
  proof -
    from low [OF that] obtain l where l: "CacheLevel_get key (?ls ! j) = Inr ([], l)"
      "ls' ! j = CacheLevel_update key v l" by blast
    have "size_lvl l = size_lvl (?ls ! j)"
      using CacheLevel_get_value [OF l(1)] by simp
    then show ?thesis
      by (simp add: l(2) level_value_update contains_update) (simp add: CacheLevel_update_def)
  qed
  have B: "evictionPolicy (ls' ! j) = evictionPolicy (?ls ! j) \<and>
           length (data (ls' ! j)) = Suc (length (data (?ls ! j)))"
    if "j < h" and absent: "\<not> CacheLevel_contains key (?ls ! j)" for j
  proof -
    from low [OF that(1)] obtain l where l: "CacheLevel_get key (?ls ! j) = Inr ([], l)"
      "ls' ! j = CacheLevel_update key v l" by blast
    have "l = ?ls ! j"
      using l(1) CacheLevel_get_absent [OF absent] by simp
    moreover have "key \<notin> fst ` set (data (?ls ! j))"
      using absent by (simp add: CacheLevel_contains_def map_of_eq_None_iff)
    ultimately show ?thesis
      by (simp add: l(2) CacheLevel_update_def length_update)
  qed
  have C: "r = v \<and> drop 1 (cacheLevels s'') = drop 1 (cacheLevels ?s')"
    if pos: "0 < h" and again: "MCS_get key ?s' = Inr (r, s'')" for r s''
  proof -
    have ne: "ls' \<noteq> []" using len h by auto
    have front: "level_value key (ls' ! 0) = v" using A [OF pos] by simp
    have "get_scan key 0 ls' = Inr (r, cacheLevels s'')"
      using MCS_get_Inr [OF again] by simp
    from get_at_front_hit [OF ne _ this] front hit(2)
    obtain l where "r = v" "cacheLevels s'' = ls'[0 := l]" by auto
    then show ?thesis by simp
  qed
  show ?thesis
  proof (intro exI conjI)
    show "MCS_get key s = Inr (v, ?s')" by (rule get)
    show "length (cacheLevels ?s') = length ?ls" by (simp add: len)
    show "CacheLevel_get key (?ls ! h) = Inr (v, cacheLevels ?s' ! h)"
      using h'(2) eq by simp
    show "\<forall>j<h. \<exists>l. CacheLevel_get key (?ls ! j) = Inr ([], l) \<and>
                     cacheLevels ?s' ! j = CacheLevel_update key v l"
      using low by simp
    show "\<forall>j. h < j \<and> j < length ?ls \<longrightarrow> cacheLevels ?s' ! j = ?ls ! j"
      using high eq by simp
    show "\<forall>j<h. level_value key (cacheLevels ?s' ! j) = v \<and>
                 CacheLevel_contains key (cacheLevels ?s' ! j) \<and>
                 size_lvl (cacheLevels ?s' ! j) = size_lvl (?ls ! j)"
      using A by simp
    show "\<forall>j<h. \<not> CacheLevel_contains key (?ls ! j) \<longrightarrow>
                 evictionPolicy (cacheLevels ?s' ! j) = evictionPolicy (?ls ! j) \<and>
                 length (data (cacheLevels ?s' ! j)) = Suc (length (data (?ls ! j)))"
      using B by simp
    show "0 < h \<longrightarrow>
              (\<forall>r s''. MCS_get key ?s' = Inr (r, s'') \<longrightarrow>
                  r = v \<and> drop 1 (cacheLevels s'') = drop 1 (cacheLevels ?s'))"
      using C by blast
  qed
qed

lemma get_scan_all_absent:
  "\<forall>j. i \<le> j \<and> j < length levels \<longrightarrow> \<not> CacheLevel_contains key (levels ! j) \<Longrightarrow>
   get_scan key i levels = Inr ([], levels)"
proof (induction "length levels - i" arbitrary: i)
  case 0
  then show ?case by (simp add: get_scan_end)
next
  case (Suc n)
  then have il: "i < length levels" by simp
  then have "\<not> CacheLevel_contains key (levels ! i)" using Suc.prems by simp
  then have g: "CacheLevel_get key (levels ! i) = Inr ([], levels ! i)"
    by (rule CacheLevel_get_absent)
  have "get_scan key (Suc i) levels = Inr ([], levels)"
  proof (rule Suc.hyps(1))
    show "n = length levels - Suc i" using Suc.hyps(2) by simp
    show "\<forall>j. Suc i \<le> j \<and> j < length levels \<longrightarrow> \<not> CacheLevel_contains key (levels ! j)"
      using Suc.prems by simp
  qed
  then show ?case
    using get_scan_step [OF il g] by simp
qed

theorem get_promotes_first_hit_by_update_witness:
  "MCS_get ''A''
     \<lparr>cacheLevels =
        [\<lparr>size_lvl = 1, data = [(''B'', ''2'')],
          evictionPolicy = Some (LRU \<lparr>accessOrder = [(1, ''B'')], cacheMap = [(''B'', 1)]\<rparr>)\<rparr>,
         \<lparr>size_lvl = 2, data = [(''A'', ''1'')],
          evictionPolicy = Some (LFU \<lparr>frequencyMap = [(''A'', 1)], keyOrder = [(''A'', 0)],
                                      currentTime = 1\<rparr>)\<rparr>]\<rparr> =
     Inr (''1'',
       \<lparr>cacheLevels =
        [\<lparr>size_lvl = 1, data = [(''B'', ''2''), (''A'', ''1'')],
          evictionPolicy = Some (LRU \<lparr>accessOrder = [(1, ''B'')], cacheMap = [(''B'', 1)]\<rparr>)\<rparr>,
         \<lparr>size_lvl = 2, data = [(''A'', ''1'')],
          evictionPolicy = Some (LFU \<lparr>frequencyMap = [(''A'', 2)], keyOrder = [(''A'', 1)],
                                      currentTime = 2\<rparr>)\<rparr>]\<rparr>) \<and>
   level_value ''A''
     \<lparr>size_lvl = 1, data = [(''B'', ''2''), (''A'', ''1'')],
      evictionPolicy = Some (LRU \<lparr>accessOrder = [(1, ''B'')], cacheMap = [(''B'', 1)]\<rparr>)\<rparr> = ''1''"
proof -
  let ?fast = "\<lparr>size_lvl = 1, data = [(''B'', ''2'')],
          evictionPolicy = Some (LRU \<lparr>accessOrder = [(1, ''B'')], cacheMap = [(''B'', 1)]\<rparr>)\<rparr>"
  let ?slow = "\<lparr>size_lvl = 2, data = [(''A'', ''1'')],
          evictionPolicy = Some (LFU \<lparr>frequencyMap = [(''A'', 1)], keyOrder = [(''A'', 0)],
                                      currentTime = 1\<rparr>)\<rparr>"
  let ?fast' = "\<lparr>size_lvl = 1, data = [(''B'', ''2''), (''A'', ''1'')],
          evictionPolicy = Some (LRU \<lparr>accessOrder = [(1, ''B'')], cacheMap = [(''B'', 1)]\<rparr>)\<rparr>"
  let ?slow' = "\<lparr>size_lvl = 2, data = [(''A'', ''1'')],
          evictionPolicy = Some (LFU \<lparr>frequencyMap = [(''A'', 2)], keyOrder = [(''A'', 1)],
                                      currentTime = 2\<rparr>)\<rparr>"
  let ?s = "\<lparr>cacheLevels = [?fast, ?slow]\<rparr>"
  have g0: "CacheLevel_get ''A'' ?fast = Inr ('''', ?fast)"
    by (simp add: level_test_defs)
  have g1: "CacheLevel_get ''A'' ?slow = Inr (''1'', ?slow')"
    by (simp add: level_test_defs LFU_test_defs)
  have run: "MCS_get ''A'' ?s = Inr (''1'', \<lparr>cacheLevels = [?fast', ?slow']\<rparr>)"
    by (simp add: system_test_defs level_test_defs LFU_test_defs)
  have 1: "1 < length (cacheLevels ?s)" by simp
  have 2: "level_value ''A'' (cacheLevels ?s ! 1) = ''1''"
    by (simp add: level_value_def)
  have 3: "''1'' \<noteq> ''''" by simp
  have 4: "\<forall>j<1. level_value ''A'' (cacheLevels ?s ! j) = []"
    by (simp add: level_value_def)
  have 5: "\<forall>j\<le>1. \<exists>r l. CacheLevel_get ''A'' (cacheLevels ?s ! j) = Inr (r, l)"
  proof (intro allI impI)
    fix j :: nat assume "j \<le> 1"
    then have "j = 0 \<or> j = 1" by auto
    then show "\<exists>r l. CacheLevel_get ''A'' (cacheLevels ?s ! j) = Inr (r, l)"
      using g0 g1 by auto
  qed
  from get_promotes_first_hit_by_update [OF 1 2 3 4 5]
  obtain s' where s': "MCS_get ''A'' ?s = Inr (''1'', s')"
    and v: "\<forall>j<1. level_value ''A'' (cacheLevels s' ! j) = ''1'' \<and>
              CacheLevel_contains ''A'' (cacheLevels s' ! j) \<and>
              size_lvl (cacheLevels s' ! j) = size_lvl (cacheLevels ?s ! j)"
    by (elim exE conjE) (rule that)
  have "s' = \<lparr>cacheLevels = [?fast', ?slow']\<rparr>"
    using s' run by simp
  then have "level_value ''A'' ?fast' = ''1''"
    using v by simp
  then show ?thesis using run by (intro conjI)
qed

lemma level_value_empty:
  "(level_value key lvl = []) =
   (\<not> CacheLevel_contains key lvl \<or> map_of (data lvl) key = Some [])"
  by (auto simp: level_value_def CacheLevel_contains_def split: option.splits)

text \<open>
  C5, amended. \<^verbatim>\<open>get\<close> returns a string, and the empty string stands for a miss.
  A level's \<^verbatim>\<open>get\<close> returns the empty string exactly when the level does not hold
  the key or holds the empty string for it, and on a level without the key it
  returns the empty string and leaves the level as it is. The system's \<^verbatim>\<open>get\<close>
  returns the empty string exactly when each level does not hold the key or
  holds the empty string for it, and when no level holds the key it returns the
  empty string and leaves the system as it is.
\<close>

theorem get_represents_miss_as_empty_string:
  "(\<forall>r lvl'. CacheLevel_get key lvl = Inr (r, lvl') \<longrightarrow>
       (r = [] \<longleftrightarrow> \<not> CacheLevel_contains key lvl \<or> map_of (data lvl) key = Some [])) \<and>
   (\<not> CacheLevel_contains key lvl \<longrightarrow> CacheLevel_get key lvl = Inr ([], lvl)) \<and>
   (\<forall>r s'. MCS_get key s = Inr (r, s') \<longrightarrow>
       (r = [] \<longleftrightarrow>
          (\<forall>l\<in>set (cacheLevels s).
              \<not> CacheLevel_contains key l \<or> map_of (data l) key = Some []))) \<and>
   ((\<forall>l\<in>set (cacheLevels s). \<not> CacheLevel_contains key l) \<longrightarrow>
       MCS_get key s = Inr ([], s))"
proof (intro conjI allI impI)
  fix r lvl' assume "CacheLevel_get key lvl = Inr (r, lvl')"
  from CacheLevel_get_value [OF this]
  show "r = [] \<longleftrightarrow> \<not> CacheLevel_contains key lvl \<or> map_of (data lvl) key = Some []"
    by (simp add: level_value_empty)
next
  assume "\<not> CacheLevel_contains key lvl"
  then show "CacheLevel_get key lvl = Inr ([], lvl)" by (rule CacheLevel_get_absent)
next
  fix r s' assume "MCS_get key s = Inr (r, s')"
  then have gs: "get_scan key 0 (cacheLevels s) = Inr (r, cacheLevels s')"
    by (simp add: MCS_get_Inr)
  note c = get_scan_Inr [OF gs]
  let ?ls = "cacheLevels s"
  show "r = [] \<longleftrightarrow>
          (\<forall>l\<in>set ?ls. \<not> CacheLevel_contains key l \<or> map_of (data l) key = Some [])"
  proof
    assume r: "r = []"
    show "\<forall>l\<in>set ?ls. \<not> CacheLevel_contains key l \<or> map_of (data l) key = Some []"
    proof
      fix l assume "l \<in> set ?ls"
      then obtain j where j: "j < length ?ls" "l = ?ls ! j"
        by (auto simp: in_set_conv_nth)
      then have "CacheLevel_get key (?ls ! j) = Inr ([], cacheLevels s' ! j)"
        using c r by simp
      from CacheLevel_get_value [OF this] have "level_value key l = []"
        using j by simp
      then show "\<not> CacheLevel_contains key l \<or> map_of (data l) key = Some []"
        by (simp add: level_value_empty)
    qed
  next
    assume all: "\<forall>l\<in>set ?ls. \<not> CacheLevel_contains key l \<or> map_of (data l) key = Some []"
    show "r = []"
    proof (rule ccontr)
      assume "r \<noteq> []"
      with c obtain h where h: "h < length ?ls"
        "CacheLevel_get key (?ls ! h) = Inr (r, cacheLevels s' ! h)"
        by auto
      from CacheLevel_get_value [OF h(2)] have "level_value key (?ls ! h) = r" by simp
      moreover have "level_value key (?ls ! h) = []"
        using all h(1) by (simp add: level_value_empty)
      ultimately show False using \<open>r \<noteq> []\<close> by simp
    qed
  qed
next
  assume "\<forall>l\<in>set (cacheLevels s). \<not> CacheLevel_contains key l"
  then have "\<forall>j. 0 \<le> j \<and> j < length (cacheLevels s) \<longrightarrow>
      \<not> CacheLevel_contains key (cacheLevels s ! j)"
    by simp
  from get_scan_all_absent [OF this] show "MCS_get key s = Inr ([], s)"
    by (simp add: MCS_get_def)
qed

theorem get_represents_miss_as_empty_string_witness:
  "CacheLevel_get ''k'' \<lparr>size_lvl = 2, data = [(''a'', ''1'')],
       evictionPolicy = Some (LRU \<lparr>accessOrder = [(1, ''a'')], cacheMap = [(''a'', 1)]\<rparr>)\<rparr> =
     Inr ('''', \<lparr>size_lvl = 2, data = [(''a'', ''1'')],
       evictionPolicy = Some (LRU \<lparr>accessOrder = [(1, ''a'')], cacheMap = [(''a'', 1)]\<rparr>)\<rparr>) \<and>
   MCS_get ''k'' \<lparr>cacheLevels = [\<lparr>size_lvl = 2, data = [(''a'', ''1'')],
       evictionPolicy = Some (LRU \<lparr>accessOrder = [(1, ''a'')], cacheMap = [(''a'', 1)]\<rparr>)\<rparr>]\<rparr> =
     Inr ('''', \<lparr>cacheLevels = [\<lparr>size_lvl = 2, data = [(''a'', ''1'')],
       evictionPolicy = Some (LRU \<lparr>accessOrder = [(1, ''a'')], cacheMap = [(''a'', 1)]\<rparr>)\<rparr>]\<rparr>)"
proof -
  let ?lvl = "\<lparr>size_lvl = 2, data = [(''a'', ''1'')],
       evictionPolicy = Some (LRU \<lparr>accessOrder = [(1, ''a'')], cacheMap = [(''a'', 1)]\<rparr>)\<rparr>"
  let ?s = "\<lparr>cacheLevels = [?lvl]\<rparr>"
  have absent: "\<not> CacheLevel_contains ''k'' ?lvl"
    by (simp add: CacheLevel_contains_def)
  then have all: "\<forall>l\<in>set (cacheLevels ?s). \<not> CacheLevel_contains ''k'' l"
    by simp
  note t = get_represents_miss_as_empty_string [of "''k''" ?lvl ?s]
  have "CacheLevel_get ''k'' ?lvl = Inr ('''', ?lvl)"
    using t absent by blast
  moreover have "MCS_get ''k'' ?s = Inr ('''', ?s)"
    using t all by blast
  ultimately show ?thesis by (intro conjI)
qed

text \<open>
  A stored empty string cannot be told from a miss. On a system of one recency
  level, \<^verbatim>\<open>put("k", "")\<close> stores the empty string, \<^verbatim>\<open>get("k")\<close> then returns the
  empty string, and \<^verbatim>\<open>get("k")\<close> on the system that never stored \<open>k\<close> returns the
  empty string as well; the same holds for the level's own \<^verbatim>\<open>get\<close>.
\<close>

theorem stored_empty_string_reads_as_miss_counterexample:
  "MCS_put ''k'' '''' (addCacheLevel 2 ''LRU'' MCS_new) =
     Inr \<lparr>cacheLevels = [\<lparr>size_lvl = 2, data = [(''k'', '''')],
       evictionPolicy = Some (LRU \<lparr>accessOrder = [(1, ''k'')], cacheMap = [(''k'', 1)]\<rparr>)\<rparr>]\<rparr> \<and>
   MCS_get ''k'' \<lparr>cacheLevels = [\<lparr>size_lvl = 2, data = [(''k'', '''')],
       evictionPolicy = Some (LRU \<lparr>accessOrder = [(1, ''k'')], cacheMap = [(''k'', 1)]\<rparr>)\<rparr>]\<rparr> =
     Inr ('''', \<lparr>cacheLevels = [\<lparr>size_lvl = 2, data = [(''k'', '''')],
       evictionPolicy = Some (LRU \<lparr>accessOrder = [(1, ''k'')], cacheMap = [(''k'', 1)]\<rparr>)\<rparr>]\<rparr>) \<and>
   MCS_get ''k'' (addCacheLevel 2 ''LRU'' MCS_new) = Inr ('''', addCacheLevel 2 ''LRU'' MCS_new) \<and>
   CacheLevel_get ''k'' \<lparr>size_lvl = 2, data = [(''k'', '''')],
       evictionPolicy = Some (LRU \<lparr>accessOrder = [(1, ''k'')], cacheMap = [(''k'', 1)]\<rparr>)\<rparr> =
     Inr ('''', \<lparr>size_lvl = 2, data = [(''k'', '''')],
       evictionPolicy = Some (LRU \<lparr>accessOrder = [(1, ''k'')], cacheMap = [(''k'', 1)]\<rparr>)\<rparr>) \<and>
   CacheLevel_get ''k'' (CacheLevel_new 2 (Some (LRU LRU_new))) =
     Inr ('''', CacheLevel_new 2 (Some (LRU LRU_new)))"
  by (simp add: system_test_defs level_test_defs LRU_test_defs)

lemma access_not_index_error: "access k p \<noteq> Inl IndexOutOfRange"
  by (cases p)
     (auto simp: LRU_access_def LFU_access_def list_erase_def split: option.splits sum.splits)

lemma evict_not_index_error: "evict p \<noteq> Inl IndexOutOfRange"
  by (cases p) (auto simp: LRU_evict_def split: list.splits sum.splits prod.splits)

lemma policy_access_not_index_error: "policy_access k lvl \<noteq> Inl IndexOutOfRange"
  using access_not_index_error
  by (auto simp: policy_access_def split: option.splits sum.splits)

lemma policy_evict_not_index_error: "policy_evict lvl \<noteq> Inl IndexOutOfRange"
  using evict_not_index_error
  by (auto simp: policy_evict_def split: option.splits sum.splits)

lemma CacheLevel_put_not_index_error: "CacheLevel_put k v lvl \<noteq> Inl IndexOutOfRange"
  using policy_access_not_index_error policy_evict_not_index_error
  by (auto simp: CacheLevel_put_def split: sum.splits)

text \<open>
  C10. \<^verbatim>\<open>put\<close> reads \<^verbatim>\<open>cacheLevels[0]\<close> without a test. On a system with no level
  the read is out of range and the call has no defined result; on a system with
  at least one level the read is in range, and \<^verbatim>\<open>put\<close> is the \<^verbatim>\<open>put\<close> of level 0,
  with the other levels untouched.
\<close>

theorem put_needs_level_zero:
  "(cacheLevels s = [] \<longrightarrow> MCS_put key val s = Inl IndexOutOfRange) \<and>
   (cacheLevels s \<noteq> [] \<longrightarrow>
      MCS_put key val s \<noteq> Inl IndexOutOfRange \<and>
      MCS_put key val s =
        (case CacheLevel_put key val (cacheLevels s ! 0) of
           Inl e \<Rightarrow> Inl e
         | Inr lvl' \<Rightarrow> Inr (s\<lparr>cacheLevels := (cacheLevels s)[0 := lvl']\<rparr>)))"
proof (cases "cacheLevels s")
  case Nil
  then show ?thesis by (simp add: MCS_put_def)
next
  case (Cons lvl rest)
  then show ?thesis
    using CacheLevel_put_not_index_error [of key val lvl]
    by (auto simp: MCS_put_def split: sum.splits)
qed

theorem put_needs_level_zero_witness:
  "MCS_put ''A'' ''1'' MCS_new = Inl IndexOutOfRange \<and>
   MCS_put ''A'' ''1'' (addCacheLevel 3 ''LRU'' MCS_new) =
     Inr \<lparr>cacheLevels = [\<lparr>size_lvl = 3, data = [(''A'', ''1'')],
       evictionPolicy = Some (LRU \<lparr>accessOrder = [(1, ''A'')], cacheMap = [(''A'', 1)]\<rparr>)\<rparr>]\<rparr>"
proof -
  have "cacheLevels MCS_new = []"
    by (simp add: MCS_new_def)
  then have 1: "MCS_put ''A'' ''1'' MCS_new = Inl IndexOutOfRange"
    using put_needs_level_zero [of MCS_new "''A''" "''1''"] by simp
  let ?s = "addCacheLevel 3 ''LRU'' MCS_new"
  have ne: "cacheLevels ?s \<noteq> []"
    by (simp add: addCacheLevel_def)
  have lvl: "CacheLevel_put ''A'' ''1'' (cacheLevels ?s ! 0) =
      Inr \<lparr>size_lvl = 3, data = [(''A'', ''1'')],
       evictionPolicy = Some (LRU \<lparr>accessOrder = [(1, ''A'')], cacheMap = [(''A'', 1)]\<rparr>)\<rparr>"
    by (simp add: system_test_defs level_test_defs LRU_test_defs)
  have "MCS_put ''A'' ''1'' ?s =
        (case CacheLevel_put ''A'' ''1'' (cacheLevels ?s ! 0) of
           Inl e \<Rightarrow> Inl e
         | Inr lvl' \<Rightarrow> Inr (?s\<lparr>cacheLevels := (cacheLevels ?s)[0 := lvl']\<rparr>))"
    using put_needs_level_zero [of ?s "''A''" "''1''"] ne by blast
  then have 2: "MCS_put ''A'' ''1'' ?s =
     Inr \<lparr>cacheLevels = [\<lparr>size_lvl = 3, data = [(''A'', ''1'')],
       evictionPolicy = Some (LRU \<lparr>accessOrder = [(1, ''A'')], cacheMap = [(''A'', 1)]\<rparr>)\<rparr>]\<rparr>"
    unfolding lvl by (simp add: addCacheLevel_def MCS_new_def CacheLevel_new_def)
  show ?thesis using 1 2 by (intro conjI)
qed

text \<open>
  C8 fails on the code. \<^verbatim>\<open>addCacheLevel(2, "BOGUS")\<close> on a new system returns
  normally and appends a level whose policy pointer is empty; the first \<^verbatim>\<open>put\<close>
  on that system dereferences the empty pointer.
\<close>

theorem addCacheLevel_unknown_policy_appends_level_without_policy:
  "addCacheLevel 2 ''BOGUS'' MCS_new =
     \<lparr>cacheLevels = [\<lparr>size_lvl = 2, data = [], evictionPolicy = None\<rparr>]\<rparr> \<and>
   MCS_put ''A'' ''1'' (addCacheLevel 2 ''BOGUS'' MCS_new) = Inl NullPolicyDeref"
  by (simp add: system_test_defs level_test_defs)

lemma access_twice_imp_once: "access_twice_defined k p \<Longrightarrow> access_defined k p"
  by (cases p) (auto simp: INT_MAX_def)

lemma access_then_defined:
  assumes "policy_inv p" "access_twice_defined k p" "access k p = Inr p'"
  shows "access_defined k p'"
proof (cases p)
  case (LRU q)
  then show ?thesis using assms(3) by (auto split: sum.splits)
next
  case (LFU q)
  then obtain q' where q': "LFU_access k q = Inr q'" "p' = LFU q'"
    using assms(3) by (auto split: sum.splits)
  then have "frequencyMap q' = AList.update k (int_at (frequencyMap q) k + 1) (frequencyMap q)"
      "currentTime q' = currentTime q + 1"
    by (auto simp: LFU_access_def split: if_splits)
  then show ?thesis
    using assms(2) LFU by (simp add: q'(2) int_at_update)
qed

lemma evict_access_twice_defined:
  assumes "policy_inv p" "evict p = Inr (v, p')" "access_twice_defined k p"
  shows "access_twice_defined k p'"
proof (cases p)
  case (LRU q)
  then show ?thesis using assms(2) by (auto split: sum.splits)
next
  case (LFU q)
  then have inv: "LFU_inv q" using assms(1) by simp
  obtain q' where ev: "LFU_evict q = (v, q')" and p': "p' = LFU q'"
    using assms(2) LFU by (auto split: prod.splits)
  note a = LFU_evict_inv [OF inv ev]
  have "int_at (frequencyMap q') k < INT_MAX - 1"
  proof (cases "k = v")
    case True
    have "k \<notin> fst ` set (AList.delete k (frequencyMap q))"
      by (rule delete_notin_dom)
    then have "int_at (frequencyMap q') k = 0"
      using a True by (simp add: int_at_absent)
    then show ?thesis by (simp add: INT_MAX_def)
  next
    case False
    then show ?thesis using a assms(3) LFU by (simp add: int_at_delete)
  qed
  then show ?thesis using a assms(3) LFU by (simp add: p')
qed

lemma CacheLevel_put_then_get_defined:
  assumes inv: "level_inv lvl" and p: "evictionPolicy lvl = Some p"
    and def: "access_twice_defined k p" and put: "CacheLevel_put k v lvl = Inr lvl'"
  shows "\<exists>l. CacheLevel_get k lvl' = Inr (v, l)"
proof -
  note a = level_inv_policy [OF inv p]
  have "\<exists>p2. evictionPolicy lvl' = Some p2 \<and> policy_inv p2 \<and> access_defined k p2"
  proof (cases "at_capacity lvl")
    case True
    from CacheLevel_put_full [OF True put] p obtain victim p1 p2 where
      e: "evict p = Inr (victim, p1)" "access k p1 = Inr p2" "evictionPolicy lvl' = Some p2"
      by auto
    have "policy_inv p1" using evict_ok [OF _ e(1)] a by simp
    moreover have "access_twice_defined k p1"
      using evict_access_twice_defined [OF _ e(1) def] a by simp
    ultimately have "access_defined k p2" "policy_inv p2"
      using access_then_defined [OF _ _ e(2)] access_ok [OF _ e(2)] by simp_all
    then show ?thesis using e(3) by simp
  next
    case False
    from CacheLevel_put_room [OF False put] p obtain p2 where
      e: "access k p = Inr p2" "evictionPolicy lvl' = Some p2"
      by auto
    have "access_defined k p2" "policy_inv p2"
      using access_then_defined [OF _ def e(1)] access_ok [OF _ e(1)] a by simp_all
    then show ?thesis using e(2) by simp
  qed
  then obtain p2 where p2: "evictionPolicy lvl' = Some p2" "policy_inv p2" "access_defined k p2"
    by blast
  obtain p3 where "access k p2 = Inr p3"
    using access_returns [OF p2(2,3)] by blast
  moreover have "map_of (data lvl') k = Some v"
    using CacheLevel_put_ok [OF inv put] by simp
  ultimately show ?thesis
    using p2(1) by (simp add: CacheLevel_get_def policy_access_def)
qed

lemma MCS_get_front:
  assumes "cacheLevels s = lvl # rest" "list_all (\<lambda>l. data l = []) rest"
    and "CacheLevel_get key lvl = Inr (val, l)"
  shows "MCS_get key s = Inr (val, s\<lparr>cacheLevels := l # rest\<rparr>)"
proof -
  have g: "CacheLevel_get key ((lvl # rest) ! 0) = Inr (val, l)"
    using assms(3) by simp
  have step: "get_scan key 0 (lvl # rest) =
      (if val \<noteq> [] then Inr (val, l # rest) else get_scan key (Suc 0) (l # rest))"
    using get_scan_step [OF _ g] by simp
  have "\<forall>j. Suc 0 \<le> j \<and> j < length (l # rest) \<longrightarrow> \<not> CacheLevel_contains key ((l # rest) ! j)"
  proof (intro allI impI)
    fix j assume j: "Suc 0 \<le> j \<and> j < length (l # rest)"
    then obtain i where i: "j = Suc i" "i < length rest"
      by (cases j) auto
    then have "data (rest ! i) = []"
      using assms(2) by (simp add: list_all_length)
    then show "\<not> CacheLevel_contains key ((l # rest) ! j)"
      by (simp add: i CacheLevel_contains_def)
  qed
  from get_scan_all_absent [OF this] have "get_scan key 0 (lvl # rest) = Inr (val, l # rest)"
    using step by simp
  then show ?thesis
    by (simp add: MCS_get_def assms(1))
qed

lemma MCS_get_inv:
  assumes inv: "system_inv s" and get: "MCS_get key s = Inr (r, s')"
  shows "system_inv s' \<and>
         (\<forall>lvl rest. cacheLevels s = lvl # rest \<longrightarrow> r = level_value key lvl)"
proof (cases "cacheLevels s")
  case Nil
  then have "get_scan key 0 (cacheLevels s) = Inr ([], [])"
    by (simp add: get_scan_end)
  then have "cacheLevels s' = []"
    using MCS_get_Inr [OF get] by simp
  then show ?thesis using Nil by (simp add: system_inv_def)
next
  case (Cons lvl rest)
  have rest: "list_all (\<lambda>l. data l = []) rest" and linv: "level_inv lvl"
    and rinv: "list_all level_inv rest"
    using inv Cons by (simp_all add: system_inv_def)
  show ?thesis
  proof (cases "CacheLevel_get key lvl")
    case (Inl e)
    then have "get_scan key 0 (cacheLevels s) = Inl e"
      using get_scan_error [of 0 "cacheLevels s" key e] Cons by simp
    then show ?thesis using get by (simp add: MCS_get_def)
  next
    case (Inr x)
    obtain val l where x: "x = (val, l)" by (cases x)
    then have g: "CacheLevel_get key lvl = Inr (val, l)" using Inr by simp
    from MCS_get_front [OF Cons rest g] get
    have r: "r = val" and s': "s' = s\<lparr>cacheLevels := l # rest\<rparr>" by simp_all
    note ok = CacheLevel_get_ok [OF linv g]
    have "system_inv s'"
      using ok rest rinv by (simp add: s' system_inv_def)
    then show ?thesis using ok r Cons by simp
  qed
qed

lemma MCS_put_inv:
  assumes inv: "system_inv s" and put: "MCS_put key val s = Inr s'"
  shows "system_inv s' \<and>
         (\<exists>lvl lvl' rest. cacheLevels s = lvl # rest \<and> cacheLevels s' = lvl' # rest \<and>
              CacheLevel_put key val lvl = Inr lvl')"
proof (cases "cacheLevels s")
  case Nil
  then show ?thesis using put by (simp add: MCS_put_def)
next
  case (Cons lvl rest)
  then obtain lvl' where l: "CacheLevel_put key val lvl = Inr lvl'"
      "s' = s\<lparr>cacheLevels := lvl' # rest\<rparr>"
    using put by (auto simp: MCS_put_def split: sum.splits)
  have "level_inv lvl" using inv Cons by (simp add: system_inv_def)
  from CacheLevel_put_ok [OF this l(1)] have "level_inv lvl'" by simp
  then have "system_inv s'"
    using inv Cons by (simp add: l(2) system_inv_def)
  then show ?thesis using Cons l by simp
qed

lemma addCacheLevel_inv: "system_inv s \<Longrightarrow> system_inv (addCacheLevel n policyName s)"
proof -
  assume inv: "system_inv s"
  let ?policy = "if policyName = ''LRU'' then Some (LRU LRU_new)
                 else if policyName = ''LFU'' then Some (LFU LFU_new) else None"
  have "level_inv (CacheLevel_new n ?policy)"
    by (rule level_inv_new) simp
  moreover have "data (CacheLevel_new n ?policy) = []"
    by (simp add: CacheLevel_new_def)
  ultimately show ?thesis
    using inv by (cases "cacheLevels s") (simp_all add: system_inv_def addCacheLevel_def Let_def)
qed

lemma list_all_remove_nth:
  "list_all P xs \<Longrightarrow> list_all P (take n xs @ drop (Suc n) xs)"
  by (auto simp: list_all_iff dest: in_set_takeD in_set_dropD)

lemma removeCacheLevel_inv: "system_inv s \<Longrightarrow> system_inv (removeCacheLevel level s)"
proof -
  assume inv: "system_inv s"
  let ?xs = "cacheLevels s"
  have "list_all level_inv (take n ?xs @ drop (Suc n) ?xs) \<and>
        list_all (\<lambda>l. data l = []) (tl (take n ?xs @ drop (Suc n) ?xs))" for n
  proof (cases ?xs)
    case Nil
    then show ?thesis by simp
  next
    case (Cons x rest)
    have a: "list_all level_inv ?xs" and b: "list_all (\<lambda>l. data l = []) rest"
      using inv Cons by (simp_all add: system_inv_def)
    have 1: "list_all level_inv (take n ?xs @ drop (Suc n) ?xs)"
      using a by (rule list_all_remove_nth)
    have 2: "list_all (\<lambda>l. data l = []) (tl (take n ?xs @ drop (Suc n) ?xs))"
    proof (cases n)
      case 0
      have "list_all (\<lambda>l. data l = []) (tl rest)"
        using b by (cases rest) simp_all
      then show ?thesis using 0 Cons by simp
    next
      case (Suc m)
      have "list_all (\<lambda>l. data l = []) (take m rest @ drop (Suc m) rest)"
        using b by (rule list_all_remove_nth)
      then show ?thesis using Suc Cons by simp
    qed
    show ?thesis using 1 2 by simp
  qed
  then show ?thesis
    using inv by (simp add: removeCacheLevel_def system_inv_def)
qed

lemma reachable_inv: "reachable s \<Longrightarrow> system_inv s"
proof (induction rule: reachable.induct)
  case init
  then show ?case by (simp add: system_inv_def MCS_new_def)
next
  case (add s n policyName)
  then show ?case by (simp add: addCacheLevel_inv)
next
  case (remove s level)
  then show ?case by (simp add: removeCacheLevel_inv)
next
  case (get s key val s')
  then show ?case using MCS_get_inv by blast
next
  case (put s key val s')
  then show ?case using MCS_put_inv by blast
qed

lemma put_then_get_nonempty:
  assumes "v \<noteq> []" "MCS_put k v s = Inr s1" "MCS_get k s1 = Inr (r, s2)"
  shows "r = v"
proof -
  from assms(2) obtain lvl rest lvl' where l: "cacheLevels s = lvl # rest"
      "CacheLevel_put k v lvl = Inr lvl'" "s1 = s\<lparr>cacheLevels := lvl' # rest\<rparr>"
    by (auto simp: MCS_put_def split: list.splits sum.splits)
  have "map_of (data lvl') k = Some v"
  proof (cases "at_capacity lvl")
    case True
    from CacheLevel_put_full [OF True l(2)] show ?thesis
      by (auto simp: update_conv')
  next
    case False
    from CacheLevel_put_room [OF False l(2)] show ?thesis
      by (auto simp: update_conv')
  qed
  then have val: "level_value k (cacheLevels s1 ! 0) = v"
    by (simp add: l(3) level_value_def)
  have ne: "cacheLevels s1 \<noteq> []" by (simp add: l(3))
  have "get_scan k 0 (cacheLevels s1) = Inr (r, cacheLevels s2)"
    using MCS_get_Inr [OF assms(3)] by simp
  from get_at_front_hit [OF ne _ this] val assms(1) show ?thesis by simp
qed

text \<open>
  C9. Let \<open>s\<close> be a state that the system reaches through its public operations
  and that has at least one level. If \<^verbatim>\<open>put(k, v)\<close> returns and the \<^verbatim>\<open>get(k)\<close>
  that follows returns, then \<^verbatim>\<open>get\<close> returns \<open>v\<close>, also for the empty string. Both
  calls return when level 0 has a policy, a positive capacity that is an
  \<^verbatim>\<open>int\<close>, and two more \<^verbatim>\<open>access\<close> calls of \<open>k\<close> do not overflow.
\<close>

theorem put_then_get_returns_the_value:
  assumes "reachable s" "cacheLevels s \<noteq> []"
  shows "(\<forall>s1 r s2. MCS_put k v s = Inr s1 \<and> MCS_get k s1 = Inr (r, s2) \<longrightarrow> r = v) \<and>
         (\<forall>p. evictionPolicy (cacheLevels s ! 0) = Some p \<and> access_twice_defined k p \<and>
               0 < size_lvl (cacheLevels s ! 0) \<and> size_lvl (cacheLevels s ! 0) \<le> INT_MAX \<longrightarrow>
            (\<exists>s1 s2. MCS_put k v s = Inr s1 \<and> MCS_get k s1 = Inr (v, s2)))"
proof (intro conjI allI impI)
  fix s1 r s2 assume a: "MCS_put k v s = Inr s1 \<and> MCS_get k s1 = Inr (r, s2)"
  have inv: "system_inv s" using assms(1) by (rule reachable_inv)
  from MCS_put_inv [OF inv] a obtain lvl lvl' rest where
    l: "cacheLevels s = lvl # rest" "cacheLevels s1 = lvl' # rest"
       "CacheLevel_put k v lvl = Inr lvl'"
    and inv1: "system_inv s1"
    by blast
  have "level_inv lvl" using inv l(1) by (simp add: system_inv_def)
  from CacheLevel_put_ok [OF this l(3)] have "level_value k lvl' = v"
    by (simp add: level_value_def)
  moreover have "r = level_value k lvl'"
    using MCS_get_inv [OF inv1, of k r s2] a l(2) by simp
  ultimately show "r = v" by simp
next
  fix p assume p: "evictionPolicy (cacheLevels s ! 0) = Some p \<and> access_twice_defined k p \<and>
      0 < size_lvl (cacheLevels s ! 0) \<and> size_lvl (cacheLevels s ! 0) \<le> INT_MAX"
  have inv: "system_inv s" using assms(1) by (rule reachable_inv)
  obtain lvl rest where l: "cacheLevels s = lvl # rest"
    using assms(2) by (cases "cacheLevels s") auto
  have linv: "level_inv lvl" and rest: "list_all (\<lambda>l. data l = []) rest"
    using inv l by (simp_all add: system_inv_def)
  have pol: "evictionPolicy lvl = Some p" and twice: "access_twice_defined k p"
    and size: "0 < size_lvl lvl" "size_lvl lvl \<le> INT_MAX"
    using p l by simp_all
  have "at_capacity lvl \<longrightarrow> data lvl \<noteq> []"
    using at_capacity_nonempty [OF size] by blast
  then obtain lvl' where put: "CacheLevel_put k v lvl = Inr lvl'"
    using CacheLevel_put_returns [OF linv pol access_twice_imp_once [OF twice]] by blast
  let ?s1 = "s\<lparr>cacheLevels := lvl' # rest\<rparr>"
  have 1: "MCS_put k v s = Inr ?s1"
    using put l by (simp add: MCS_put_def)
  obtain l' where "CacheLevel_get k lvl' = Inr (v, l')"
    using CacheLevel_put_then_get_defined [OF linv pol twice put] by blast
  then have 2: "MCS_get k ?s1 = Inr (v, ?s1\<lparr>cacheLevels := l' # rest\<rparr>)"
    using rest by (intro MCS_get_front) simp_all
  show "\<exists>s1 s2. MCS_put k v s = Inr s1 \<and> MCS_get k s1 = Inr (v, s2)"
    using 1 2 by blast
qed

theorem put_then_get_returns_the_value_witness:
  "reachable (addCacheLevel 2 ''LFU'' (addCacheLevel 3 ''LRU'' MCS_new)) \<and>
   (\<exists>s1 s2. MCS_put ''k'' '''' (addCacheLevel 2 ''LFU'' (addCacheLevel 3 ''LRU'' MCS_new)) = Inr s1 \<and>
       MCS_get ''k'' s1 = Inr ('''', s2)) \<and>
   (\<exists>s1 s2. MCS_put ''A'' ''1'' (addCacheLevel 2 ''LFU'' (addCacheLevel 3 ''LRU'' MCS_new)) = Inr s1 \<and>
       MCS_get ''A'' s1 = Inr (''1'', s2))"
proof -
  let ?s = "addCacheLevel 2 ''LFU'' (addCacheLevel 3 ''LRU'' MCS_new)"
  have r: "reachable ?s"
    by (intro reachable.add reachable.init)
  have ne: "cacheLevels ?s \<noteq> []"
    by (simp add: addCacheLevel_def)
  have p: "evictionPolicy (cacheLevels ?s ! 0) = Some (LRU LRU_new) \<and>
      access_twice_defined k (LRU LRU_new) \<and>
      0 < size_lvl (cacheLevels ?s ! 0) \<and> size_lvl (cacheLevels ?s ! 0) \<le> INT_MAX" for k
    by (simp add: addCacheLevel_def MCS_new_def CacheLevel_new_def INT_MAX_def)
  note t = put_then_get_returns_the_value [OF r ne, THEN conjunct2, rule_format]
  have "\<exists>s1 s2. MCS_put ''k'' '''' ?s = Inr s1 \<and> MCS_get ''k'' s1 = Inr ('''', s2)"
    using p by (rule t)
  moreover have "\<exists>s1 s2. MCS_put ''A'' ''1'' ?s = Inr s1 \<and> MCS_get ''A'' s1 = Inr (''1'', s2)"
    using p by (rule t)
  ultimately show ?thesis using r by (intro conjI)
qed

end
